theory Spec2Isabelle
  imports Main "HOL-Library.Word"
begin

section \<open>Entities and components\<close>

text \<open>
  An entity is a \<open>uint64_t\<close>; the value 0 is reserved as the invalid entity.
  Every component carries the entity it belongs to.
\<close>

type_synonym entity = "64 word"

definition kInvalidEntity :: entity where
  "kInvalidEntity = 0"

record component =
  get_entity :: entity

section \<open>The entity manager\<close>

text \<open>
  \<open>poly_typeid\<close> is declared in a header that is not part of the sources at hand, so it
  is the type parameter \<open>'t\<close>.  A \<open>base_system *\<close> is an optional address \<open>'sys\<close>:
  \<open>None\<close> is the null pointer.
\<close>

record ('t, 'sys) entity_manager =
  system_type_map :: "'t \<rightharpoonup> 't"
  entity_counter :: entity
  systems :: "'t \<rightharpoonup> 'sys"

definition entity_manager_init :: "('t, 'sys) entity_manager" where
  "entity_manager_init =
     \<lparr>system_type_map = Map.empty, entity_counter = 0, systems = Map.empty\<rparr>"

definition register_system_for_type ::
  "'t \<Rightarrow> 't \<Rightarrow> ('t, 'sys) entity_manager \<Rightarrow> ('t, 'sys) entity_manager" where
  "register_system_for_type system_type def_type m =
     m\<lparr>system_type_map := (system_type_map m)(def_type \<mapsto> system_type)\<rparr>"

text \<open>\<open>entity_manager::create\<close>: pre-increment of the 64-bit counter, which wraps.\<close>

definition entity_manager_create ::
  "('t, 'sys) entity_manager \<Rightarrow> entity \<times> ('t, 'sys) entity_manager" where
  "entity_manager_create m =
     (let e = entity_counter m + 1 in (e, m\<lparr>entity_counter := e\<rparr>))"

text \<open>A sequence of \<open>n\<close> calls of \<open>create\<close>, with the identifiers in the order returned.\<close>

fun create_sequence ::
  "nat \<Rightarrow> ('t, 'sys) entity_manager \<Rightarrow> entity list \<times> ('t, 'sys) entity_manager" where
  "create_sequence 0 m = ([], m)"
| "create_sequence (Suc n) m =
     (case entity_manager_create m of
        (e, m1) \<Rightarrow> (case create_sequence n m1 of (es, m2) \<Rightarrow> (e # es, m2)))"

definition add_system ::
  "'t \<Rightarrow> 'sys option \<Rightarrow> ('t, 'sys) entity_manager \<Rightarrow> ('t, 'sys) entity_manager" where
  "add_system system_type system m =
     (case system of
        None \<Rightarrow> m
      | Some ptr \<Rightarrow>
          (case systems m system_type of
             None \<Rightarrow> m\<lparr>systems := (systems m)(system_type \<mapsto> ptr)\<rparr>
           | Some _ \<Rightarrow> m))"

section \<open>The data-component systems\<close>

text \<open>
  The three \<open>float\<close> fields are only copied, so their type is the parameter \<open>'f\<close>.
  The \<open>void *\<close> argument of \<open>create\<close> is modelled by the component it points to.
\<close>

record 'f physics_component = component +
  physics_value1 :: 'f
  physics_value2 :: 'f
  physics_value3 :: 'f

record 'f render_component = component +
  render_value1 :: 'f
  render_value2 :: 'f
  render_value3 :: 'f

record ('t, 'f) ex_system_one =
  c1 :: 't
  physics_components :: "entity \<rightharpoonup> 'f physics_component"

record ('t, 'f) ex_system_two =
  c2 :: 't
  render_components :: "entity \<rightharpoonup> 'f render_component"

definition ex_system_one_create ::
  "entity \<Rightarrow> 't \<Rightarrow> 'f physics_component \<Rightarrow> ('t, 'f) ex_system_one
     \<Rightarrow> bool \<times> ('t, 'f) ex_system_one" where
  "ex_system_one_create e hash data sys =
     (if hash \<noteq> c1 sys then (False, sys)
      else (True, sys\<lparr>physics_components := (physics_components sys)(e \<mapsto> data)\<rparr>))"

definition ex_system_two_create ::
  "entity \<Rightarrow> 't \<Rightarrow> 'f render_component \<Rightarrow> ('t, 'f) ex_system_two
     \<Rightarrow> bool \<times> ('t, 'f) ex_system_two" where
  "ex_system_two_create e hash data sys =
     (if hash \<noteq> c2 sys then (False, sys)
      else (True, sys\<lparr>render_components := (render_components sys)(e \<mapsto> data)\<rparr>))"

section \<open>The transform system\<close>

text \<open>
  \<open>Pose\<close> and \<open>float3\<close> come from \<open>math-core.hpp\<close>, which is not part of the sources at
  hand.  They are the type parameters \<open>'p\<close> and \<open>'v\<close>: \<open>*\<close> is \<open>Pose::operator*\<close>,
  \<open>1\<close> stands for the default-constructed \<open>Pose()\<close> and \<open>0\<close> for the default-constructed
  \<open>float3()\<close>.  Nothing is assumed about them.
\<close>

record ('p, 'v) scene_graph_component = component +
  local_pose :: 'p
  local_scale :: 'v
  parent :: entity
  children :: "entity list"

record 'p world_transform_component = component +
  world_pose :: 'p

text \<open>The constructors \<open>scene_graph_component()\<close> and \<open>scene_graph_component(e)\<close>.\<close>

definition scene_graph_component_of :: "entity \<Rightarrow> ('p::one, 'v::zero) scene_graph_component" where
  "scene_graph_component_of e =
     \<lparr>get_entity = e, local_pose = 1, local_scale = 0, parent = kInvalidEntity, children = []\<rparr>"

definition scene_graph_component_default :: "('p::one, 'v::zero) scene_graph_component" where
  "scene_graph_component_default = scene_graph_component_of kInvalidEntity"

definition world_transform_component_of :: "entity \<Rightarrow> ('p::one) world_transform_component" where
  "world_transform_component_of e = \<lparr>get_entity = e, world_pose = 1\<rparr>"

definition world_transform_component_default :: "('p::one) world_transform_component" where
  "world_transform_component_default = world_transform_component_of kInvalidEntity"

record ('p, 'v) transform_system =
  scene_graph_transforms :: "entity \<rightharpoonup> ('p, 'v) scene_graph_component"
  world_transforms :: "entity \<rightharpoonup> 'p world_transform_component"

definition transform_system_init :: "('p, 'v) transform_system" where
  "transform_system_init = \<lparr>scene_graph_transforms = Map.empty, world_transforms = Map.empty\<rparr>"

subsection \<open>\<open>std::unordered_map::operator[]\<close>\<close>

text \<open>
  \<open>m[k]\<close> inserts a default-constructed value when \<open>k\<close> is absent and yields a reference
  to the stored value: \<open>index_insert\<close> is the table afterwards, \<open>index_value\<close> the value
  referred to, and \<open>index_update\<close> a write through the reference.
\<close>

definition index_insert :: "('k \<rightharpoonup> 'a) \<Rightarrow> 'k \<Rightarrow> 'a \<Rightarrow> ('k \<rightharpoonup> 'a)" where
  "index_insert m k d = (case m k of None \<Rightarrow> m(k \<mapsto> d) | Some _ \<Rightarrow> m)"

definition index_value :: "('k \<rightharpoonup> 'a) \<Rightarrow> 'k \<Rightarrow> 'a \<Rightarrow> 'a" where
  "index_value m k d = (case m k of None \<Rightarrow> d | Some v \<Rightarrow> v)"

definition index_update :: "('k \<rightharpoonup> 'a) \<Rightarrow> 'k \<Rightarrow> 'a \<Rightarrow> ('a \<Rightarrow> 'a) \<Rightarrow> ('k \<rightharpoonup> 'a)" where
  "index_update m k d f = m(k \<mapsto> f (index_value m k d))"

subsection \<open>Recursive recomputation and destruction\<close>

text \<open>
  A range-based \<open>for\<close> loop whose body may fail to return: the body is run on each element
  in order, threading the state.
\<close>

fun for_each :: "('a \<Rightarrow> 's \<Rightarrow> 's option) \<Rightarrow> 'a list \<Rightarrow> 's \<Rightarrow> 's option" where
  "for_each body [] s = Some s"
| "for_each body (x # xs) s =
     (case body x s of None \<Rightarrow> None | Some s' \<Rightarrow> for_each body xs s')"

text \<open>
  Both recursive functions can recurse forever (on a cyclic child graph), so they take
  the recursion depth they may use; \<open>None\<close> means the depth did not suffice.
  Their loops read \<open>node.children\<close> through a reference into the table.  Inserting
  into a \<open>std::unordered_map\<close> keeps references to its elements valid, and
  \<open>recalculate_world_transform\<close> changes no children list, so its loop runs over the
  list as it was when the call began.  \<open>destroy_recursive\<close> erases records, but in a call
  that returns the record of the node is still in place when its loop has finished
  (\<open>destroy_recursive_children_first\<close>), so the same holds there.
\<close>

fun recalculate_world_transform ::
  "nat \<Rightarrow> entity \<Rightarrow> ('p::{one,times}, 'v::zero) transform_system
     \<Rightarrow> ('p, 'v) transform_system option" where
  "recalculate_world_transform 0 child s = None"
| "recalculate_world_transform (Suc fuel) child s =
     (let sg1 = index_insert (scene_graph_transforms s) child scene_graph_component_default;
          node = index_value (scene_graph_transforms s) child scene_graph_component_default;
          wt1 = index_insert (world_transforms s) child world_transform_component_default;
          world_xform = index_value (world_transforms s) child world_transform_component_default;
          s1 = (if parent node \<noteq> kInvalidEntity then
                  (let parent_node = index_value sg1 (parent node) scene_graph_component_default
                   in \<lparr>scene_graph_transforms =
                          index_insert sg1 (parent node) scene_graph_component_default,
                        world_transforms =
                          wt1(child \<mapsto> world_xform\<lparr>world_pose :=
                                 local_pose node * local_pose parent_node\<rparr>)\<rparr>)
                else
                  \<lparr>scene_graph_transforms = sg1,
                   world_transforms = wt1(child \<mapsto> world_xform\<lparr>world_pose := local_pose node\<rparr>)\<rparr>)
      in for_each (recalculate_world_transform fuel) (children node) s1)"

fun destroy_recursive ::
  "nat \<Rightarrow> entity \<Rightarrow> ('p::one, 'v::zero) transform_system \<Rightarrow> ('p, 'v) transform_system option" where
  "destroy_recursive 0 child s = None"
| "destroy_recursive (Suc fuel) child s =
     (let sg1 = index_insert (scene_graph_transforms s) child scene_graph_component_default;
          node = index_value (scene_graph_transforms s) child scene_graph_component_default
      in case for_each (destroy_recursive fuel) (children node)
                (s\<lparr>scene_graph_transforms := sg1\<rparr>) of
           None \<Rightarrow> None
         | Some s' \<Rightarrow>
             Some (s'\<lparr>world_transforms := (world_transforms s')(child := None),
                      scene_graph_transforms := (scene_graph_transforms s')(child := None)\<rparr>))"

subsection \<open>The public operations\<close>

datatype error = Invalid_argument string

text \<open>
  An operation that can throw returns the outcome paired with the state at that moment;
  \<open>None\<close> is a call that does not return.  An operation that reaches one of the two
  recursive functions takes the recursion depth as its first argument and passes it on.
\<close>

definition transform_system_create_erased ::
  "entity \<Rightarrow> 't \<Rightarrow> 'd \<Rightarrow> ('p, 'v) transform_system \<Rightarrow> bool \<times> ('p, 'v) transform_system" where
  "transform_system_create_erased e hash data s = (True, s)"

definition transform_system_create ::
  "nat \<Rightarrow> entity \<Rightarrow> 'p \<Rightarrow> 'v \<Rightarrow> ('p::{one,times}, 'v::zero) transform_system
     \<Rightarrow> (bool \<times> ('p, 'v) transform_system) option" where
  "transform_system_create fuel e lp ls s =
     (let sg1 = (scene_graph_transforms s)(e \<mapsto> scene_graph_component_of e);
          sg2 = index_update sg1 e scene_graph_component_default (\<lambda>n. n\<lparr>local_pose := lp\<rparr>);
          sg3 = index_update sg2 e scene_graph_component_default (\<lambda>n. n\<lparr>local_scale := ls\<rparr>);
          wt1 = (world_transforms s)(e \<mapsto> world_transform_component_of e)
      in case recalculate_world_transform fuel e
                \<lparr>scene_graph_transforms = sg3, world_transforms = wt1\<rparr> of
           None \<Rightarrow> None
         | Some s' \<Rightarrow> Some (True, s'))"

definition has_transform :: "('p, 'v) transform_system \<Rightarrow> entity \<Rightarrow> bool" where
  "has_transform s e = (scene_graph_transforms s e \<noteq> None)"

definition add_child ::
  "nat \<Rightarrow> entity \<Rightarrow> entity \<Rightarrow> ('p::{one,times}, 'v::zero) transform_system
     \<Rightarrow> ((error + bool) \<times> ('p, 'v) transform_system) option" where
  "add_child fuel parent_e child s =
     (if parent_e = kInvalidEntity then Some (Inl (Invalid_argument ''parent was invalid''), s)
      else if child = kInvalidEntity then Some (Inl (Invalid_argument ''child was invalid''), s)
      else if \<not> has_transform s parent_e then
        Some (Inl (Invalid_argument ''parent has no transform component''), s)
      else if \<not> has_transform s child then
        Some (Inl (Invalid_argument ''child has no transform component''), s)
      else
        (let sg1 = index_update (scene_graph_transforms s) parent_e scene_graph_component_default
                     (\<lambda>n. n\<lparr>children := children n @ [child]\<rparr>);
             sg2 = index_update sg1 child scene_graph_component_default
                     (\<lambda>n. n\<lparr>parent := parent_e\<rparr>)
         in case recalculate_world_transform fuel parent_e (s\<lparr>scene_graph_transforms := sg2\<rparr>) of
              None \<Rightarrow> None
            | Some s' \<Rightarrow> Some (Inr True, s')))"

definition get_local_transform ::
  "('p, 'v) transform_system \<Rightarrow> entity \<Rightarrow> ('p, 'v) scene_graph_component option" where
  "get_local_transform s e = (if e = kInvalidEntity then None else scene_graph_transforms s e)"

definition get_world_transform ::
  "('p, 'v) transform_system \<Rightarrow> entity \<Rightarrow> 'p world_transform_component option" where
  "get_world_transform s e = (if e = kInvalidEntity then None else world_transforms s e)"

definition get_parent :: "('p, 'v) transform_system \<Rightarrow> entity \<Rightarrow> entity" where
  "get_parent s child =
     (if child = kInvalidEntity then kInvalidEntity
      else (case scene_graph_transforms s child of
              Some n \<Rightarrow> (if parent n \<noteq> kInvalidEntity then parent n else kInvalidEntity)
            | None \<Rightarrow> kInvalidEntity))"

definition remove_parent ::
  "nat \<Rightarrow> entity \<Rightarrow> ('p::{one,times}, 'v::zero) transform_system
     \<Rightarrow> ('p, 'v) transform_system option" where
  "remove_parent fuel child s =
     (let sg1 = index_insert (scene_graph_transforms s) child scene_graph_component_default;
          child_node = index_value (scene_graph_transforms s) child scene_graph_component_default
      in if parent child_node \<noteq> kInvalidEntity then
           (let sg2 = index_update sg1 (parent child_node) scene_graph_component_default
                        (\<lambda>n. n\<lparr>children := removeAll child (children n)\<rparr>);
                sg3 = index_update sg2 child scene_graph_component_default
                        (\<lambda>n. n\<lparr>parent := kInvalidEntity\<rparr>)
            in recalculate_world_transform fuel child (s\<lparr>scene_graph_transforms := sg3\<rparr>))
         else Some (s\<lparr>scene_graph_transforms := sg1\<rparr>))"

definition destroy ::
  "nat \<Rightarrow> entity \<Rightarrow> ('p::one, 'v::zero) transform_system
     \<Rightarrow> ((error + unit) \<times> ('p, 'v) transform_system) option" where
  "destroy fuel e s =
     (if e = kInvalidEntity then Some (Inl (Invalid_argument ''parent was invalid''), s)
      else if \<not> has_transform s e then
        Some (Inl (Invalid_argument ''no component exists for this entity''), s)
      else (case destroy_recursive fuel e s of
              None \<Rightarrow> None
            | Some s' \<Rightarrow> Some (Inr (), s')))"

section \<open>Notions used to state the properties\<close>

text \<open>The children list that \<open>scene_graph_transforms[x].children\<close> would yield.\<close>

definition children_of :: "('p, 'v) transform_system \<Rightarrow> entity \<Rightarrow> entity list" where
  "children_of s x = (case scene_graph_transforms s x of None \<Rightarrow> [] | Some n \<Rightarrow> children n)"

text \<open>The record that \<open>scene_graph_transforms[x]\<close> refers to.\<close>

definition node_of ::
  "(entity \<rightharpoonup> ('p::one, 'v::zero) scene_graph_component) \<Rightarrow> entity
     \<Rightarrow> ('p, 'v) scene_graph_component" where
  "node_of t x = index_value t x scene_graph_component_default"

text \<open>
  A scene-graph table grown by \<open>operator[]\<close> only: every key keeps its record, and a new
  key holds the default record.
\<close>

definition default_extends ::
  "(entity \<rightharpoonup> ('p::one, 'v::zero) scene_graph_component)
     \<Rightarrow> (entity \<rightharpoonup> ('p, 'v) scene_graph_component) \<Rightarrow> bool" where
  "default_extends t t' =
     (\<forall>x. t' x = t x \<or> (t x = None \<and> t' x = Some scene_graph_component_default))"

text \<open>
  The rule for the world pose of an entity \<open>x\<close> that has both records: the local pose for
  an entity without parent, otherwise the local pose composed with the parent's local pose.
\<close>

definition world_pose_rule :: "('p::times, 'v) transform_system \<Rightarrow> entity \<Rightarrow> bool" where
  "world_pose_rule s x =
     (\<exists>node w. scene_graph_transforms s x = Some node \<and> world_transforms s x = Some w \<and>
        (if parent node = kInvalidEntity then world_pose w = local_pose node
         else (\<exists>pn. scene_graph_transforms s (parent node) = Some pn \<and>
                 world_pose w = local_pose node * local_pose pn)))"

text \<open>
  The effect of a recomputation pass over the set \<open>S\<close> of entities: the scene-graph
  table only grows by default records, for entities of \<open>S\<close> and their parents; the world
  poses of \<open>S\<close> follow the rule; every other world-transform entry is untouched.
\<close>

definition recalculated ::
  "entity set \<Rightarrow> ('p::{one,times}, 'v::zero) transform_system \<Rightarrow> ('p, 'v) transform_system
     \<Rightarrow> bool" where
  "recalculated S s s' =
     (default_extends (scene_graph_transforms s) (scene_graph_transforms s') \<and>
      (\<forall>x. scene_graph_transforms s' x \<noteq> scene_graph_transforms s x \<longrightarrow>
           x \<in> S \<or> (\<exists>y\<in>S. parent (node_of (scene_graph_transforms s) y) = x
                              \<and> x \<noteq> kInvalidEntity)) \<and>
      (\<forall>x\<in>S. world_pose_rule s' x) \<and>
      (\<forall>x. x \<notin> S \<longrightarrow> world_transforms s' x = world_transforms s x))"

text \<open>
  The part of \<open>recalculate_world_transform\<close> before its loop: the two table look-ups and
  the assignment of the world pose.
\<close>

definition recalculate_node ::
  "entity \<Rightarrow> ('p::{one,times}, 'v::zero) transform_system \<Rightarrow> ('p, 'v) transform_system" where
  "recalculate_node child s =
     (let sg1 = index_insert (scene_graph_transforms s) child scene_graph_component_default;
          node = index_value (scene_graph_transforms s) child scene_graph_component_default;
          wt1 = index_insert (world_transforms s) child world_transform_component_default;
          world_xform = index_value (world_transforms s) child world_transform_component_default
      in if parent node \<noteq> kInvalidEntity then
           (let parent_node = index_value sg1 (parent node) scene_graph_component_default
            in \<lparr>scene_graph_transforms =
                   index_insert sg1 (parent node) scene_graph_component_default,
                 world_transforms =
                   wt1(child \<mapsto> world_xform\<lparr>world_pose :=
                          local_pose node * local_pose parent_node\<rparr>)\<rparr>)
         else
           \<lparr>scene_graph_transforms = sg1,
            world_transforms = wt1(child \<mapsto> world_xform\<lparr>world_pose := local_pose node\<rparr>)\<rparr>)"

text \<open>An entity together with its transitive descendants along the children lists.\<close>

inductive_set subtree :: "(entity \<Rightarrow> entity list) \<Rightarrow> entity \<Rightarrow> entity set"
  for ch :: "entity \<Rightarrow> entity list" and e :: entity where
  subtree_root: "e \<in> subtree ch e"
| subtree_child: "x \<in> subtree ch e \<Longrightarrow> c \<in> set (ch x) \<Longrightarrow> c \<in> subtree ch e"

text \<open>No infinite descent along the children lists below an entity: no cycle is reachable.\<close>

inductive acyclic_from :: "(entity \<Rightarrow> entity list) \<Rightarrow> entity \<Rightarrow> bool"
  for ch :: "entity \<Rightarrow> entity list" where
  acyclic_fromI: "(\<And>c. c \<in> set (ch x) \<Longrightarrow> acyclic_from ch c) \<Longrightarrow> acyclic_from ch x"

text \<open>
  The state of \<open>add_child\<close> between its two assignments and the recomputation, and
  the state of \<open>remove_parent\<close> between its assignments and the recomputation.
\<close>

definition add_child_link ::
  "entity \<Rightarrow> entity \<Rightarrow> ('p::one, 'v::zero) transform_system \<Rightarrow> ('p, 'v) transform_system" where
  "add_child_link parent_e child s =
     (let sg1 = index_update (scene_graph_transforms s) parent_e scene_graph_component_default
                  (\<lambda>n. n\<lparr>children := children n @ [child]\<rparr>);
          sg2 = index_update sg1 child scene_graph_component_default
                  (\<lambda>n. n\<lparr>parent := parent_e\<rparr>)
      in s\<lparr>scene_graph_transforms := sg2\<rparr>)"

definition remove_parent_unlink ::
  "entity \<Rightarrow> ('p::one, 'v::zero) transform_system \<Rightarrow> ('p, 'v) transform_system" where
  "remove_parent_unlink child s =
     (let sg1 = index_insert (scene_graph_transforms s) child scene_graph_component_default;
          child_node = index_value (scene_graph_transforms s) child scene_graph_component_default;
          sg2 = index_update sg1 (parent child_node) scene_graph_component_default
                  (\<lambda>n. n\<lparr>children := removeAll child (children n)\<rparr>);
          sg3 = index_update sg2 child scene_graph_component_default
                  (\<lambda>n. n\<lparr>parent := kInvalidEntity\<rparr>)
      in s\<lparr>scene_graph_transforms := sg3\<rparr>)"

text \<open>Both tables after the keys in \<open>S\<close> have been erased, and nothing else.\<close>

definition erased ::
  "entity set \<Rightarrow> ('p, 'v) transform_system \<Rightarrow> ('p, 'v) transform_system \<Rightarrow> bool" where
  "erased S s s' =
     (scene_graph_transforms s' = scene_graph_transforms s |` (- S) \<and>
      world_transforms s' = world_transforms s |` (- S))"

text \<open>
  The states of a transform system that starts empty and is driven through its public
  operations, whatever their arguments; a call that does not return leads nowhere.
\<close>

inductive reachable :: "('p::{one,times}, 'v::zero) transform_system \<Rightarrow> bool" where
  reachable_init: "reachable transform_system_init"
| reachable_create:
    "reachable s \<Longrightarrow> transform_system_create fuel e lp ls s = Some (r, s') \<Longrightarrow> reachable s'"
| reachable_add_child:
    "reachable s \<Longrightarrow> add_child fuel p c s = Some (r', s') \<Longrightarrow> reachable s'"
| reachable_remove_parent:
    "reachable s \<Longrightarrow> remove_parent fuel c s = Some s' \<Longrightarrow> reachable s'"
| reachable_destroy:
    "reachable s \<Longrightarrow> destroy fuel e s = Some (r'', s') \<Longrightarrow> reachable s'"

text \<open>
  Every entity with a world-transform record has a scene-graph record, and the world pose
  of an entity without parent is its local pose.
\<close>

definition world_tables_ok :: "('p, 'v) transform_system \<Rightarrow> bool" where
  "world_tables_ok s =
     ((\<forall>x. world_transforms s x \<noteq> None \<longrightarrow> scene_graph_transforms s x \<noteq> None) \<and>
      (\<forall>x node w. scene_graph_transforms s x = Some node \<and> parent node = kInvalidEntity \<and>
           world_transforms s x = Some w \<longrightarrow> world_pose w = local_pose node))"

text \<open>Mutual consistency of the parent references and the children lists.\<close>

definition links_consistent :: "('p, 'v) transform_system \<Rightarrow> bool" where
  "links_consistent s =
     (\<forall>c p nc np. scene_graph_transforms s c = Some nc \<and> scene_graph_transforms s p = Some np
        \<longrightarrow> (c \<in> set (children np) \<longleftrightarrow> parent nc = p))"

text \<open>
  The invalid entity has no record, and every entity that a record names as a child or as
  its parent has a record.
\<close>

definition links_closed :: "('p, 'v) transform_system \<Rightarrow> bool" where
  "links_closed s =
     (scene_graph_transforms s kInvalidEntity = None \<and>
      (\<forall>x n. scene_graph_transforms s x = Some n \<longrightarrow>
         (\<forall>c\<in>set (children n). scene_graph_transforms s c \<noteq> None) \<and>
         (parent n \<noteq> kInvalidEntity \<longrightarrow> scene_graph_transforms s (parent n) \<noteq> None)))"

text \<open>
  The same states under a calling discipline: \<open>create\<close> only for a valid entity that has
  no record yet, \<open>add_child\<close> only for a child that has no parent, \<open>remove_parent\<close> only
  for a valid entity, \<open>destroy\<close> only for an entity that has no parent.
\<close>

inductive reachable_disciplined :: "('p::{one,times}, 'v::zero) transform_system \<Rightarrow> bool" where
  disciplined_init: "reachable_disciplined transform_system_init"
| disciplined_create:
    "reachable_disciplined s \<Longrightarrow> e \<noteq> kInvalidEntity \<Longrightarrow> \<not> has_transform s e
       \<Longrightarrow> transform_system_create fuel e lp ls s = Some (r, s') \<Longrightarrow> reachable_disciplined s'"
| disciplined_add_child:
    "reachable_disciplined s \<Longrightarrow> get_parent s c = kInvalidEntity
       \<Longrightarrow> add_child fuel p c s = Some (r', s') \<Longrightarrow> reachable_disciplined s'"
| disciplined_remove_parent:
    "reachable_disciplined s \<Longrightarrow> c \<noteq> kInvalidEntity
       \<Longrightarrow> remove_parent fuel c s = Some s' \<Longrightarrow> reachable_disciplined s'"
| disciplined_destroy:
    "reachable_disciplined s \<Longrightarrow> get_parent s e = kInvalidEntity
       \<Longrightarrow> destroy fuel e s = Some (r'', s') \<Longrightarrow> reachable_disciplined s'"

section \<open>Example scenes\<close>

text \<open>
  The scene that the example program builds, with integers in place of poses and scales: a
  root 1 and two entities 2 and 3, first only created, then both attached to the root.
  \<open>scene_linked_twice\<close> is \<open>scene_linked\<close> after a second \<open>add_child(1, 2)\<close>;
  \<open>scene_reparented\<close> is \<open>scene_created\<close> after \<open>add_child(1, 3)\<close> and
  \<open>add_child(2, 3)\<close>.  \<open>scene_invalid_entity\<close> is the empty transform system after
  \<open>create\<close> on the invalid entity 0.
\<close>

definition scene_created :: "(int, int) transform_system" where
  "scene_created =
     \<lparr>scene_graph_transforms =
        [1 \<mapsto> \<lparr>get_entity = 1, local_pose = 5, local_scale = 1, parent = 0, children = []\<rparr>,
         2 \<mapsto> \<lparr>get_entity = 2, local_pose = 3, local_scale = 1, parent = 0, children = []\<rparr>,
         3 \<mapsto> \<lparr>get_entity = 3, local_pose = 4, local_scale = 1, parent = 0, children = []\<rparr>],
      world_transforms =
        [1 \<mapsto> \<lparr>get_entity = 1, world_pose = 5\<rparr>,
         2 \<mapsto> \<lparr>get_entity = 2, world_pose = 3\<rparr>,
         3 \<mapsto> \<lparr>get_entity = 3, world_pose = 4\<rparr>]\<rparr>"

definition scene_linked :: "(int, int) transform_system" where
  "scene_linked =
     \<lparr>scene_graph_transforms =
        [1 \<mapsto> \<lparr>get_entity = 1, local_pose = 5, local_scale = 1, parent = 0, children = [2, 3]\<rparr>,
         2 \<mapsto> \<lparr>get_entity = 2, local_pose = 3, local_scale = 1, parent = 1, children = []\<rparr>,
         3 \<mapsto> \<lparr>get_entity = 3, local_pose = 4, local_scale = 1, parent = 1, children = []\<rparr>],
      world_transforms =
        [1 \<mapsto> \<lparr>get_entity = 1, world_pose = 5\<rparr>,
         2 \<mapsto> \<lparr>get_entity = 2, world_pose = 15\<rparr>,
         3 \<mapsto> \<lparr>get_entity = 3, world_pose = 20\<rparr>]\<rparr>"

definition scene_linked_twice :: "(int, int) transform_system" where
  "scene_linked_twice =
     \<lparr>scene_graph_transforms =
        [1 \<mapsto> \<lparr>get_entity = 1, local_pose = 5, local_scale = 1, parent = 0, children = [2, 3, 2]\<rparr>,
         2 \<mapsto> \<lparr>get_entity = 2, local_pose = 3, local_scale = 1, parent = 1, children = []\<rparr>,
         3 \<mapsto> \<lparr>get_entity = 3, local_pose = 4, local_scale = 1, parent = 1, children = []\<rparr>],
      world_transforms =
        [1 \<mapsto> \<lparr>get_entity = 1, world_pose = 5\<rparr>,
         2 \<mapsto> \<lparr>get_entity = 2, world_pose = 15\<rparr>,
         3 \<mapsto> \<lparr>get_entity = 3, world_pose = 20\<rparr>]\<rparr>"

definition scene_reparented :: "(int, int) transform_system" where
  "scene_reparented =
     \<lparr>scene_graph_transforms =
        [1 \<mapsto> \<lparr>get_entity = 1, local_pose = 5, local_scale = 1, parent = 0, children = [3]\<rparr>,
         2 \<mapsto> \<lparr>get_entity = 2, local_pose = 3, local_scale = 1, parent = 0, children = [3]\<rparr>,
         3 \<mapsto> \<lparr>get_entity = 3, local_pose = 4, local_scale = 1, parent = 2, children = []\<rparr>],
      world_transforms =
        [1 \<mapsto> \<lparr>get_entity = 1, world_pose = 5\<rparr>,
         2 \<mapsto> \<lparr>get_entity = 2, world_pose = 3\<rparr>,
         3 \<mapsto> \<lparr>get_entity = 3, world_pose = 12\<rparr>]\<rparr>"

definition scene_invalid_entity :: "(int, int) transform_system" where
  "scene_invalid_entity =
     \<lparr>scene_graph_transforms =
        [0 \<mapsto> \<lparr>get_entity = 0, local_pose = 5, local_scale = 1, parent = 0, children = []\<rparr>],
      world_transforms = [0 \<mapsto> \<lparr>get_entity = 0, world_pose = 5\<rparr>]\<rparr>"

section \<open>Entity identifiers\<close>

lemma upt_1_Suc_Suc: "[1..<Suc (Suc n)] = 1 # map Suc [1..<Suc n]"
proof -
  have "[1..<Suc (Suc n)] = 1 # [Suc 1..<Suc (Suc n)]"
    by (rule upt_conv_Cons) simp
  also have "[Suc 1..<Suc (Suc n)] = map Suc [1..<Suc n]"
    by (rule map_Suc_upt[symmetric])
  finally show ?thesis .
qed

lemma create_sequence_fst:
  "fst (create_sequence n m) = map (\<lambda>i. entity_counter m + of_nat i) [1..<Suc n]"
proof (induction n arbitrary: m)
  case 0
  then show ?case by simp
next
  case (Suc n)
  obtain e m1 where c: "entity_manager_create m = (e, m1)"
    by (cases "entity_manager_create m")
  then have e: "e = entity_counter m + 1" and m1: "entity_counter m1 = entity_counter m + 1"
    by (auto simp: entity_manager_create_def Let_def)
  have "fst (create_sequence (Suc n) m) = e # fst (create_sequence n m1)"
    using c by (simp split: prod.splits)
  also have "\<dots> = e # map (\<lambda>i. entity_counter m1 + of_nat i) [1..<Suc n]"
    by (simp only: Suc.IH)
  also have "\<dots> = map (\<lambda>i. entity_counter m + of_nat i) (1 # map Suc [1..<Suc n])"
    by (simp del: upt_Suc add: e m1 comp_def add.assoc)
  finally show ?case by (simp only: upt_1_Suc_Suc)
qed

lemma create_sequence_last:
  assumes "0 < n"
  shows "fst (create_sequence n m) ! (n - 1) = entity_counter m + of_nat n"
proof -
  have "[1..<Suc n] ! (n - 1) = n"
    using assms by (simp del: upt_Suc add: nth_upt)
  moreover have "n - 1 < length [1..<Suc n]"
    using assms by (simp del: upt_Suc)
  ultimately show ?thesis
    unfolding create_sequence_fst by (simp only: nth_map)
qed

lemma of_nat_entity_less:
  "x < y \<Longrightarrow> y < 2^64 \<Longrightarrow> (of_nat x :: entity) < of_nat y"
  by (simp add: word_less_nat_alt unat_of_nat take_bit_nat_eq_self)

lemma of_nat_entity_nonzero:
  "0 < x \<Longrightarrow> x < 2^64 \<Longrightarrow> (of_nat x :: entity) \<noteq> 0"
  using of_nat_entity_less[of 0 x] by auto

lemma sorted_wrt_map_of_nat:
  "n < 2^64 \<Longrightarrow> sorted_wrt (<) (map (of_nat :: nat \<Rightarrow> entity) [1..<Suc n])"
proof -
  assume n: "n < 2 ^ 64"
  have "sorted_wrt (\<lambda>x y. (of_nat x :: entity) < of_nat y) [1..<Suc n]"
  proof (rule sorted_wrt_mono_rel[OF _ sorted_wrt_upt])
    fix x y assume "x \<in> set [1..<Suc n]" "y \<in> set [1..<Suc n]" "x < y"
    then show "(of_nat x :: entity) < of_nat y"
      using n by (intro of_nat_entity_less) auto
  qed
  then show ?thesis by (simp only: sorted_wrt_map)
qed

text \<open>
  C8, for fewer than \<open>2^64\<close> calls.  On a fresh entity manager, a sequence of \<open>n < 2^64\<close> calls of
  \<open>create\<close> returns the identifiers \<open>1, 2, \<dots>, n\<close> in this order: they are strictly
  increasing, pairwise distinct and different from the invalid entity.
\<close>

theorem entity_manager_create_ids:
  assumes "n < 2 ^ 64"
  shows "fst (create_sequence n (entity_manager_init :: ('t, 'sys) entity_manager))
           = map of_nat [1..<Suc n]
       \<and> sorted_wrt (<) (fst (create_sequence n (entity_manager_init :: ('t, 'sys) entity_manager)))
       \<and> distinct (fst (create_sequence n (entity_manager_init :: ('t, 'sys) entity_manager)))
       \<and> kInvalidEntity \<notin> set (fst (create_sequence n (entity_manager_init :: ('t, 'sys) entity_manager)))"
proof -
  let ?ids = "fst (create_sequence n (entity_manager_init :: ('t, 'sys) entity_manager))"
  have ids: "?ids = map of_nat [1..<Suc n]"
    by (simp del: upt_Suc add: create_sequence_fst entity_manager_init_def)
  have s: "sorted_wrt (<) ?ids"
    unfolding ids using assms by (rule sorted_wrt_map_of_nat)
  have d: "distinct ?ids"
    using s strict_sorted_iff by blast
  have z: "kInvalidEntity \<notin> set ?ids"
    unfolding ids kInvalidEntity_def using assms of_nat_entity_nonzero by auto
  from ids s d z show ?thesis by blast
qed

theorem entity_manager_create_ids_witness:
  "fst (create_sequence 3 (entity_manager_init :: (nat, nat) entity_manager)) = [1, 2, 3]"
  using entity_manager_create_ids[of 3, where 't = nat and 'sys = nat]
  by (simp add: upt_rec)

text \<open>
  C8 does not extend to the sequence of \<open>2^64\<close> calls: the counter wraps and the last
  call returns the invalid entity 0.
\<close>

theorem entity_manager_create_wraps:
  "fst (create_sequence (2 ^ 64) (entity_manager_init :: (nat, nat) entity_manager)) ! (2 ^ 64 - 1)
     = kInvalidEntity"
proof -
  have pos: "0 < (2::nat) ^ 64" by simp
  have wrap: "(of_nat (2 ^ 64) :: entity) = 0" by simp
  have "entity_counter (entity_manager_init :: (nat, nat) entity_manager) = 0"
    by (simp add: entity_manager_init_def)
  with create_sequence_last[OF pos, of "entity_manager_init :: (nat, nat) entity_manager"] wrap
  show ?thesis
    by (simp only: kInvalidEntity_def add_0_left)
qed

section \<open>System registration\<close>

text \<open>
  C9.  \<open>add_system\<close> with a null system pointer leaves the entity manager unchanged, and
  \<open>add_system\<close> for a system type that is already registered leaves it unchanged too, so
  the first registration stays in place.  The operation returns nothing, so no error is
  reported in either case.
\<close>

theorem add_system_noop:
  "add_system t None m = m
   \<and> (systems m t = Some old \<longrightarrow> add_system t p m = m \<and> systems (add_system t p m) t = Some old)"
  by (auto simp: add_system_def split: option.splits)

theorem add_system_noop_witness:
  "add_system (1::nat) (Some (8::nat)) (add_system 1 (Some 7) entity_manager_init)
     = add_system 1 (Some 7) entity_manager_init
   \<and> systems (add_system (1::nat) (Some (8::nat)) (add_system 1 (Some 7) entity_manager_init)) 1
     = Some 7"
proof -
  have "systems (add_system (1::nat) (Some (7::nat)) entity_manager_init) 1 = Some 7"
    by (simp add: add_system_def entity_manager_init_def)
  with add_system_noop[of 1 "add_system (1::nat) (Some (7::nat)) entity_manager_init" 7 "Some 8"]
  show ?thesis by blast
qed

section \<open>Loops\<close>

lemma for_each_mono:
  assumes "for_each f cs s = Some s'"
    and "\<And>c a b. c \<in> set cs \<Longrightarrow> f c a = Some b \<Longrightarrow> g c a = Some b"
  shows "for_each g cs s = Some s'"
  using assms
proof (induction cs arbitrary: s)
  case Nil
  then show ?case by simp
next
  case (Cons c cs)
  from Cons.prems(1) obtain s1 where 1: "f c s = Some s1" and 2: "for_each f cs s1 = Some s'"
    by (auto split: option.splits)
  have "g c s = Some s1" using Cons.prems(2)[of c s s1] 1 by simp
  moreover have "for_each g cs s1 = Some s'"
  proof (rule Cons.IH[OF 2])
    fix c' a b assume "c' \<in> set cs" "f c' a = Some b"
    then show "g c' a = Some b" using Cons.prems(2)[of c' a b] by simp
  qed
  ultimately show ?case by simp
qed

section \<open>Subtrees and acyclicity\<close>

lemma subtree_trans:
  assumes "z \<in> subtree ch y" and "y \<in> subtree ch x"
  shows "z \<in> subtree ch x"
  using assms by (induction rule: subtree.induct) (auto intro: subtree.intros)

lemma subtree_unfold:
  "subtree ch e = insert e (\<Union>c\<in>set (ch e). subtree ch c)"
proof (intro set_eqI iffI)
  fix x assume "x \<in> subtree ch e"
  then show "x \<in> insert e (\<Union>c\<in>set (ch e). subtree ch c)"
  proof (induction rule: subtree.induct)
    case subtree_root
    then show ?case by simp
  next
    case (subtree_child x c)
    then show ?case by (auto intro: subtree.intros)
  qed
next
  fix x assume "x \<in> insert e (\<Union>c\<in>set (ch e). subtree ch c)"
  then show "x \<in> subtree ch e"
  proof
    assume "x = e"
    then show ?thesis by (simp add: subtree.subtree_root)
  next
    assume "x \<in> (\<Union>c\<in>set (ch e). subtree ch c)"
    then obtain c where c: "c \<in> set (ch e)" and x: "x \<in> subtree ch c" by blast
    have "c \<in> subtree ch e" using c by (auto intro: subtree.intros)
    with x show ?thesis by (rule subtree_trans)
  qed
qed

lemma acyclic_from_children:
  "acyclic_from ch x \<Longrightarrow> c \<in> set (ch x) \<Longrightarrow> acyclic_from ch c"
  by (erule acyclic_from.cases) simp

lemma acyclic_from_subtree:
  assumes "y \<in> subtree ch x" and "acyclic_from ch x"
  shows "acyclic_from ch y"
  using assms by (induction rule: subtree.induct) (auto dest: acyclic_from_children)

lemma acyclic_from_antimono:
  assumes "acyclic_from ch x" and "\<And>y. set (ch' y) \<subseteq> set (ch y)"
  shows "acyclic_from ch' x"
  using assms(1)
proof (induction rule: acyclic_from.induct)
  case (acyclic_fromI x)
  show ?case
  proof (rule acyclic_from.intros)
    fix c assume "c \<in> set (ch' x)"
    then have "c \<in> set (ch x)" using assms(2) by blast
    then show "acyclic_from ch' c" by (rule acyclic_fromI.IH)
  qed
qed

text \<open>No node below an acyclic node has that node as a child.\<close>

lemma acyclic_from_no_back_edge:
  assumes "acyclic_from ch x" and "y \<in> subtree ch x"
  shows "x \<notin> set (ch y)"
  using assms
proof (induction arbitrary: y rule: acyclic_from.induct)
  case (acyclic_fromI x)
  show ?case
  proof
    assume edge: "x \<in> set (ch y)"
    from acyclic_fromI.prems have "y = x \<or> (\<exists>c\<in>set (ch x). y \<in> subtree ch c)"
      by (subst (asm) subtree_unfold) auto
    then show False
    proof
      assume "y = x"
      with edge have "x \<in> set (ch x)" by simp
      from acyclic_fromI.IH[OF this subtree.subtree_root] this show False by simp
    next
      assume "\<exists>c\<in>set (ch x). y \<in> subtree ch c"
      then obtain c where c: "c \<in> set (ch x)" and y: "y \<in> subtree ch c" by blast
      from y edge have "x \<in> subtree ch c" by (rule subtree.subtree_child)
      from acyclic_fromI.IH[OF c this] c show False by simp
    qed
  qed
qed

lemma acyclic_from_not_in_child_subtree:
  assumes "acyclic_from ch x" and "c \<in> set (ch x)"
  shows "x \<notin> subtree ch c"
proof
  assume "x \<in> subtree ch c"
  then have "x = c \<or> (\<exists>y\<in>subtree ch c. x \<in> set (ch y))"
    by (cases rule: subtree.cases) auto
  then show False
  proof
    assume "x = c"
    with assms(2) have "x \<in> set (ch x)" by simp
    with acyclic_from_no_back_edge[OF assms(1) subtree.subtree_root] show False by simp
  next
    assume "\<exists>y\<in>subtree ch c. x \<in> set (ch y)"
    then obtain y where y: "y \<in> subtree ch c" and b: "x \<in> set (ch y)" by blast
    have "c \<in> subtree ch x" using assms(2) by (auto intro: subtree.intros)
    with y have "y \<in> subtree ch x" by (rule subtree_trans)
    with acyclic_from_no_back_edge[OF assms(1)] b show False by blast
  qed
qed

section \<open>Table look-ups\<close>


lemma index_insert_apply:
  "index_insert m k d x = (if x = k \<and> m k = None then Some d else m x)"
  by (simp add: index_insert_def split: option.splits)

lemma index_insert_same [simp]: "index_insert m k d k = Some (index_value m k d)"
  by (simp add: index_insert_def index_value_def split: option.splits)

lemma index_value_Some [simp]: "m k = Some v \<Longrightarrow> index_value m k d = v"
  by (simp add: index_value_def)

lemma index_value_None [simp]: "m k = None \<Longrightarrow> index_value m k d = d"
  by (simp add: index_value_def)

lemma index_insert_present [simp]: "m k = Some v \<Longrightarrow> index_insert m k d = m"
  by (simp add: index_insert_def)

lemma default_extends_refl [simp]: "default_extends t t"
  by (simp add: default_extends_def)

lemma default_extends_trans:
  "default_extends t t' \<Longrightarrow> default_extends t' t'' \<Longrightarrow> default_extends t t''"
  unfolding default_extends_def by (metis option.distinct(1))

lemma default_extends_index_insert [simp]:
  "default_extends t (index_insert t k scene_graph_component_default)"
  by (simp add: default_extends_def index_insert_apply)

lemma default_extends_Some:
  "default_extends t t' \<Longrightarrow> t x = Some n \<Longrightarrow> t' x = Some n"
  unfolding default_extends_def by (metis option.distinct(1))

lemma default_extends_node_of:
  "default_extends t t' \<Longrightarrow> node_of t' x = node_of t x"
  unfolding default_extends_def node_of_def index_value_def
  by (metis option.case_eq_if option.sel option.distinct(1) option.simps(4,5))

lemma children_of_node_of:
  "children_of s x = children (node_of (scene_graph_transforms s) x)"
  by (simp add: children_of_def node_of_def index_value_def scene_graph_component_default_def
      scene_graph_component_of_def split: option.splits)

lemma default_extends_children_of:
  "default_extends (scene_graph_transforms s) (scene_graph_transforms s')
     \<Longrightarrow> children_of s' = children_of s"
  by (rule ext) (simp add: children_of_node_of default_extends_node_of)

section \<open>Recomputation of world transforms\<close>


lemma world_pose_rule_stable:
  assumes "world_pose_rule s x"
    and "default_extends (scene_graph_transforms s) (scene_graph_transforms s')"
    and "world_transforms s' x = world_transforms s x"
  shows "world_pose_rule s' x"
proof -
  from assms(1) obtain node w where n: "scene_graph_transforms s x = Some node"
    and w: "world_transforms s x = Some w"
    and r: "if parent node = kInvalidEntity then world_pose w = local_pose node
            else (\<exists>pn. scene_graph_transforms s (parent node) = Some pn \<and>
                    world_pose w = local_pose node * local_pose pn)"
    unfolding world_pose_rule_def by blast
  have n': "scene_graph_transforms s' x = Some node"
    using assms(2) n by (rule default_extends_Some)
  have r': "if parent node = kInvalidEntity then world_pose w = local_pose node
            else (\<exists>pn. scene_graph_transforms s' (parent node) = Some pn \<and>
                    world_pose w = local_pose node * local_pose pn)"
    using r default_extends_Some[OF assms(2)] by (auto split: if_splits)
  show ?thesis
    unfolding world_pose_rule_def using n' w r' assms(3) by auto
qed

lemma recalculated_refl: "recalculated {} s s"
  by (simp add: recalculated_def)

lemma recalculated_trans:
  assumes 1: "recalculated S1 s s1" and 2: "recalculated S2 s1 s2"
  shows "recalculated (S1 \<union> S2) s s2"
proof -
  let ?t = "scene_graph_transforms s" and ?t1 = "scene_graph_transforms s1"
    and ?t2 = "scene_graph_transforms s2"
  have e1: "default_extends ?t ?t1" and e2: "default_extends ?t1 ?t2"
    using 1 2 by (simp_all add: recalculated_def)
  have a1: "default_extends ?t ?t2"
    using e1 e2 by (rule default_extends_trans)
  have a2: "x \<in> S1 \<union> S2 \<or> (\<exists>y\<in>S1 \<union> S2. parent (node_of ?t y) = x \<and> x \<noteq> kInvalidEntity)"
    if "?t2 x \<noteq> ?t x" for x
  proof (cases "?t1 x = ?t x")
    case True
    with that have "?t2 x \<noteq> ?t1 x" by simp
    with 2 have "x \<in> S2 \<or> (\<exists>y\<in>S2. parent (node_of ?t1 y) = x \<and> x \<noteq> kInvalidEntity)"
      by (simp add: recalculated_def)
    then show ?thesis by (auto simp: default_extends_node_of[OF e1])
  next
    case False
    with 1 have "x \<in> S1 \<or> (\<exists>y\<in>S1. parent (node_of ?t y) = x \<and> x \<noteq> kInvalidEntity)"
      by (simp add: recalculated_def)
    then show ?thesis by auto
  qed
  have b: "world_pose_rule s2 x" if "x \<in> S1 \<union> S2" for x
  proof (cases "x \<in> S2")
    case True
    with 2 show ?thesis by (simp add: recalculated_def)
  next
    case False
    with that have "x \<in> S1" by simp
    with 1 have "world_pose_rule s1 x" by (simp add: recalculated_def)
    moreover have "world_transforms s2 x = world_transforms s1 x"
      using 2 False by (simp add: recalculated_def)
    ultimately show ?thesis using e2 by (blast intro: world_pose_rule_stable)
  qed
  have c: "world_transforms s2 x = world_transforms s x" if "x \<notin> S1 \<union> S2" for x
    using that 1 2 by (simp add: recalculated_def)
  show ?thesis
    unfolding recalculated_def using a1 a2 b c by blast
qed

lemma for_each_recalculated:
  assumes loop: "for_each body cs s = Some s'"
    and body: "\<And>c a b. c \<in> set cs \<Longrightarrow> body c a = Some b
                 \<Longrightarrow> recalculated (subtree (children_of a) c) a b"
  shows "recalculated (\<Union>c\<in>set cs. subtree (children_of s) c) s s'"
  using assms
proof (induction cs arbitrary: s)
  case Nil
  then show ?case by (simp add: recalculated_refl)
next
  case (Cons c cs)
  from Cons.prems(1) obtain s1 where 1: "body c s = Some s1" and 2: "for_each body cs s1 = Some s'"
    by (auto split: option.splits)
  have r1: "recalculated (subtree (children_of s) c) s s1"
    using Cons.prems(2)[of c s s1] 1 by simp
  then have ch: "children_of s1 = children_of s"
    by (simp add: recalculated_def default_extends_children_of)
  have "recalculated (\<Union>c\<in>set cs. subtree (children_of s1) c) s1 s'"
  proof (rule Cons.IH[OF 2])
    fix c' a b assume "c' \<in> set cs" "body c' a = Some b"
    then show "recalculated (subtree (children_of a) c') a b"
      using Cons.prems(2)[of c' a b] by simp
  qed
  with r1 have "recalculated (subtree (children_of s) c \<union> (\<Union>c\<in>set cs. subtree (children_of s1) c)) s s'"
    by (rule recalculated_trans)
  then show ?case by (simp add: ch)
qed

lemma recalculate_world_transform_Suc:
  "recalculate_world_transform (Suc n) child s =
     for_each (recalculate_world_transform n) (children_of s child) (recalculate_node child s)"
  by (simp add: recalculate_node_def Let_def children_of_node_of node_of_def)

lemma recalculate_node_sg:
  "scene_graph_transforms (recalculate_node e s) x =
     (if scene_graph_transforms s x = None \<and>
         (x = e \<or> (x = parent (node_of (scene_graph_transforms s) e) \<and> x \<noteq> kInvalidEntity))
      then Some scene_graph_component_default else scene_graph_transforms s x)"
  by (auto simp: recalculate_node_def Let_def index_insert_apply node_of_def
      scene_graph_component_default_def scene_graph_component_of_def)

lemma recalculate_node_wt_other:
  "x \<noteq> e \<Longrightarrow> world_transforms (recalculate_node e s) x = world_transforms s x"
  by (simp add: recalculate_node_def Let_def index_insert_apply)

lemma recalculate_node_rule: "world_pose_rule (recalculate_node e s) e"
proof -
  let ?t = "scene_graph_transforms s"
  let ?node = "node_of ?t e"
  have n: "scene_graph_transforms (recalculate_node e s) e = Some ?node"
    by (cases "?t e") (auto simp: recalculate_node_sg node_of_def)
  show ?thesis
  proof (cases "parent ?node = kInvalidEntity")
    case True
    then have "\<exists>w. world_transforms (recalculate_node e s) e = Some w \<and> world_pose w = local_pose ?node"
      by (simp add: recalculate_node_def Let_def node_of_def)
    with n True show ?thesis unfolding world_pose_rule_def by auto
  next
    case False
    let ?pn = "node_of ?t (parent ?node)"
    have pn: "scene_graph_transforms (recalculate_node e s) (parent ?node) = Some ?pn"
      using False by (cases "?t (parent ?node)") (auto simp: recalculate_node_sg node_of_def)
    have "index_value (index_insert ?t e scene_graph_component_default) (parent ?node)
            scene_graph_component_default = ?pn"
      by (cases "?t e"; cases "?t (parent ?node)")
         (auto simp: index_value_def index_insert_apply node_of_def)
    then have "\<exists>w. world_transforms (recalculate_node e s) e = Some w
                 \<and> world_pose w = local_pose ?node * local_pose ?pn"
      using False by (simp add: recalculate_node_def Let_def node_of_def)
    with n pn False show ?thesis unfolding world_pose_rule_def by auto
  qed
qed

lemma recalculate_node_recalculated: "recalculated {e} s (recalculate_node e s)"
  unfolding recalculated_def
  by (auto simp: recalculate_node_rule recalculate_node_wt_other recalculate_node_sg
      default_extends_def)

lemma recalculate_node_children_of [simp]:
  "children_of (recalculate_node e s) = children_of s"
  using recalculate_node_recalculated[of e s]
  by (simp add: recalculated_def default_extends_children_of)

lemma recalculate_world_transform_recalculated:
  "recalculate_world_transform n e s = Some s'
     \<Longrightarrow> recalculated (subtree (children_of s) e) s s'"
proof (induction n arbitrary: e s s')
  case 0
  then show ?case by simp
next
  case (Suc n)
  let ?s1 = "recalculate_node e s"
  from Suc.prems have loop:
    "for_each (recalculate_world_transform n) (children_of s e) ?s1 = Some s'"
    by (simp only: recalculate_world_transform_Suc)
  have "recalculated (\<Union>c\<in>set (children_of s e). subtree (children_of ?s1) c) ?s1 s'"
    using loop by (rule for_each_recalculated) (rule Suc.IH)
  with recalculate_node_recalculated[of e s]
  have "recalculated ({e} \<union> (\<Union>c\<in>set (children_of s e). subtree (children_of ?s1) c)) s s'"
    by (rule recalculated_trans)
  then show ?case
    by (subst subtree_unfold) simp
qed

subsection \<open>Recursion depth\<close>


lemma for_each_elem:
  assumes "for_each body cs s = Some s'" and "c \<in> set cs" and "I s"
    and "\<And>x a b. x \<in> set cs \<Longrightarrow> I a \<Longrightarrow> body x a = Some b \<Longrightarrow> I b"
  shows "\<exists>a b. I a \<and> body c a = Some b"
  using assms
proof (induction cs arbitrary: s)
  case Nil
  then show ?case by simp
next
  case (Cons x cs)
  from Cons.prems(1) obtain s1 where 1: "body x s = Some s1" and 2: "for_each body cs s1 = Some s'"
    by (auto split: option.splits)
  show ?case
  proof (cases "c = x")
    case True
    with 1 Cons.prems(3) show ?thesis by blast
  next
    case False
    with Cons.prems(2) have c: "c \<in> set cs" by simp
    have "I s1" using Cons.prems(4)[of x s s1] Cons.prems(3) 1 by simp
    with 2 c show ?thesis
    proof (rule Cons.IH)
      fix y a b assume "y \<in> set cs" "I a" "body y a = Some b"
      then show "I b" using Cons.prems(4)[of y a b] by simp
    qed
  qed
qed

lemma for_each_fuel:
  assumes mono: "\<And>(n::nat) m c a b. n \<le> m \<Longrightarrow> body n c a = Some b \<Longrightarrow> body m c a = Some b"
    and each: "\<And>c a. c \<in> set cs \<Longrightarrow> I a \<Longrightarrow> \<exists>n b. body n c a = Some b \<and> I b"
    and "I s"
  shows "\<exists>n s'. for_each (body n) cs s = Some s' \<and> I s'"
  using each \<open>I s\<close>
proof (induction cs arbitrary: s)
  case Nil
  then show ?case by simp
next
  case (Cons c cs)
  from Cons.prems(1)[of c s] Cons.prems(2)
  obtain n1 s1 where 1: "body n1 c s = Some s1" and i1: "I s1" by auto
  have "\<exists>n s'. for_each (body n) cs s1 = Some s' \<and> I s'"
  proof (rule Cons.IH[OF _ i1])
    fix c' a assume "c' \<in> set cs" "I a"
    then show "\<exists>n b. body n c' a = Some b \<and> I b" using Cons.prems(1)[of c' a] by simp
  qed
  then obtain n2 s' where 2: "for_each (body n2) cs s1 = Some s'" and i': "I s'" by blast
  have "body (max n1 n2) c s = Some s1"
    by (rule mono[OF _ 1]) simp
  moreover have "for_each (body (max n1 n2)) cs s1 = Some s'"
    using 2
  proof (rule for_each_mono)
    fix c' a b assume "body n2 c' a = Some b"
    then show "body (max n1 n2) c' a = Some b" by (rule mono[rotated]) simp
  qed
  ultimately show ?case using i'
    by (intro exI[of _ "max n1 n2"] exI[of _ s']) simp
qed

lemma recalculate_world_transform_mono_Suc:
  "recalculate_world_transform n e s = Some s'
     \<Longrightarrow> recalculate_world_transform (Suc n) e s = Some s'"
proof (induction n arbitrary: e s s')
  case 0
  then show ?case by simp
next
  case (Suc n)
  from Suc.prems have
    "for_each (recalculate_world_transform n) (children_of s e) (recalculate_node e s) = Some s'"
    by (simp only: recalculate_world_transform_Suc)
  then have
    "for_each (recalculate_world_transform (Suc n)) (children_of s e) (recalculate_node e s) = Some s'"
    by (rule for_each_mono) (rule Suc.IH)
  then show ?case by (simp only: recalculate_world_transform_Suc)
qed

lemma recalculate_world_transform_mono:
  "n \<le> m \<Longrightarrow> recalculate_world_transform n e s = Some s'
     \<Longrightarrow> recalculate_world_transform m e s = Some s'"
proof (induction m)
  case 0
  then show ?case by simp
next
  case (Suc m)
  show ?case
  proof (cases "n = Suc m")
    case True
    with Suc.prems show ?thesis by simp
  next
    case False
    with Suc.prems have "n \<le> m" by simp
    then have "recalculate_world_transform m e s = Some s'" using Suc.prems(2) by (rule Suc.IH)
    then show ?thesis by (rule recalculate_world_transform_mono_Suc)
  qed
qed

lemma recalculate_world_transform_children_of:
  "recalculate_world_transform n e s = Some s' \<Longrightarrow> children_of s' = children_of s"
  by (drule recalculate_world_transform_recalculated)
     (simp add: recalculated_def default_extends_children_of)

lemma recalculate_world_transform_acyclic:
  fixes s :: "('p::{one,times}, 'v::zero) transform_system"
  shows "recalculate_world_transform n e s = Some s' \<Longrightarrow> acyclic_from (children_of s) e"
proof (induction n arbitrary: e s s')
  case 0
  then show ?case by simp
next
  case (Suc n)
  from Suc.prems have loop:
    "for_each (recalculate_world_transform n) (children_of s e) (recalculate_node e s) = Some s'"
    by (simp only: recalculate_world_transform_Suc)
  show ?case
  proof (rule acyclic_from.intros)
    fix c assume c: "c \<in> set (children_of s e)"
    have pres: "children_of b = children_of s"
      if "children_of a = children_of s" "recalculate_world_transform n x a = Some b"
      for x and a b :: "('p, 'v) transform_system"
      using that by (simp add: recalculate_world_transform_children_of)
    have "\<exists>(a :: ('p, 'v) transform_system) b.
            children_of a = children_of s \<and> recalculate_world_transform n c a = Some b"
    proof (rule for_each_elem[where I = "\<lambda>a. children_of a = children_of s", OF loop c])
      show "children_of (recalculate_node e s) = children_of s" by simp
    qed (rule pres)
    then obtain a b :: "('p, 'v) transform_system" where "children_of a = children_of s"
      "recalculate_world_transform n c a = Some b" by blast
    with Suc.IH[of c a b] show "acyclic_from (children_of s) c" by simp
  qed
qed

lemma recalculate_world_transform_returns:
  fixes s :: "('p::{one,times}, 'v::zero) transform_system"
  assumes "acyclic_from ch e" and "children_of s = ch"
  shows "\<exists>n s'. recalculate_world_transform n e s = Some s'"
  using assms
proof (induction arbitrary: s rule: acyclic_from.induct)
  case (acyclic_fromI x)
  have "\<exists>n s'. for_each (recalculate_world_transform n) (ch x) (recalculate_node x s) = Some s'
          \<and> children_of s' = ch"
  proof (rule for_each_fuel[where body = recalculate_world_transform and I = "\<lambda>a :: ('p, 'v) transform_system. children_of a = ch"])
    show "\<And>n m c a b. n \<le> m \<Longrightarrow> recalculate_world_transform n c a = Some b
            \<Longrightarrow> recalculate_world_transform m c a = Some b"
      by (rule recalculate_world_transform_mono)
  next
    fix c and a :: "('p, 'v) transform_system"
    assume "c \<in> set (ch x)" "children_of a = ch"
    from acyclic_fromI.IH[OF this] obtain n b where "recalculate_world_transform n c a = Some b"
      by blast
    moreover from this have "children_of b = ch"
      using \<open>children_of a = ch\<close> by (simp add: recalculate_world_transform_children_of)
    ultimately show "\<exists>n b. recalculate_world_transform n c a = Some b \<and> children_of b = ch"
      by blast
  next
    show "children_of (recalculate_node x s) = ch" using acyclic_fromI.prems by simp
  qed
  then obtain n s' where
    "for_each (recalculate_world_transform n) (ch x) (recalculate_node x s) = Some s'" by blast
  then have "recalculate_world_transform (Suc n) x s = Some s'"
    using acyclic_fromI.prems by (simp only: recalculate_world_transform_Suc)
  then show ?case by blast
qed

section \<open>Recursive destruction\<close>


lemma subtree_mono:
  assumes "\<And>x. set (ch' x) \<subseteq> set (ch x)"
  shows "subtree ch' c \<subseteq> subtree ch c"
proof
  fix y assume "y \<in> subtree ch' c"
  then show "y \<in> subtree ch c"
    by (induction rule: subtree.induct) (use assms in \<open>auto intro: subtree.intros\<close>)
qed

lemma subtree_closed: "x \<in> subtree ch e \<Longrightarrow> set (ch x) \<subseteq> subtree ch e"
  by (auto intro: subtree.intros)

lemma subtree_after_erase:
  assumes closed: "\<And>x. x \<in> A \<Longrightarrow> set (ch x) \<subseteq> A"
    and ch': "\<And>x. ch' x = (if x \<in> A then [] else ch x)"
  shows "A \<union> subtree ch' c = A \<union> subtree ch c"
proof (intro equalityI subsetI)
  fix y assume "y \<in> A \<union> subtree ch' c"
  moreover have "subtree ch' c \<subseteq> subtree ch c"
    by (rule subtree_mono) (simp add: ch')
  ultimately show "y \<in> A \<union> subtree ch c" by blast
next
  fix y assume "y \<in> A \<union> subtree ch c"
  moreover have "y \<in> A \<union> subtree ch' c" if "y \<in> subtree ch c"
    using that
  proof (induction rule: subtree.induct)
    case subtree_root
    then show ?case by (simp add: subtree.subtree_root)
  next
    case (subtree_child x y)
    show ?case
    proof (cases "x \<in> A")
      case True
      with closed subtree_child.hyps(2) show ?thesis by blast
    next
      case False
      with subtree_child.IH have "x \<in> subtree ch' c" by simp
      moreover have "y \<in> set (ch' x)" using False subtree_child.hyps(2) by (simp add: ch')
      ultimately show ?thesis by (auto intro: subtree.intros)
    qed
  qed
  ultimately show "y \<in> A \<union> subtree ch' c" by blast
qed

lemma erased_refl: "erased {} s s"
  by (simp add: erased_def restrict_map_def)

lemma erased_trans: "erased A s s1 \<Longrightarrow> erased B s1 s2 \<Longrightarrow> erased (A \<union> B) s s2"
  by (auto simp: erased_def restrict_map_def fun_eq_iff)

lemma erased_children_of:
  "erased S s s' \<Longrightarrow> children_of s' x = (if x \<in> S then [] else children_of s x)"
  by (simp add: erased_def children_of_def restrict_map_def)

lemma for_each_erased:
  assumes loop: "for_each body cs s = Some s'"
    and body: "\<And>c a b. c \<in> set cs \<Longrightarrow> body c a = Some b \<Longrightarrow> erased (subtree (children_of a) c) a b"
  shows "erased (\<Union>c\<in>set cs. subtree (children_of s) c) s s'"
  using assms
proof (induction cs arbitrary: s)
  case Nil
  then show ?case by (simp add: erased_refl)
next
  case (Cons c cs)
  from Cons.prems(1) obtain s1 where 1: "body c s = Some s1" and 2: "for_each body cs s1 = Some s'"
    by (auto split: option.splits)
  let ?A = "subtree (children_of s) c"
  have r1: "erased ?A s s1"
    using Cons.prems(2)[of c s s1] 1 by simp
  have "erased (\<Union>c\<in>set cs. subtree (children_of s1) c) s1 s'"
  proof (rule Cons.IH[OF 2])
    fix c' a b assume "c' \<in> set cs" "body c' a = Some b"
    then show "erased (subtree (children_of a) c') a b"
      using Cons.prems(2)[of c' a b] by simp
  qed
  with r1 have "erased (?A \<union> (\<Union>c\<in>set cs. subtree (children_of s1) c)) s s'"
    by (rule erased_trans)
  moreover have "?A \<union> subtree (children_of s1) c' = ?A \<union> subtree (children_of s) c'" for c'
    by (rule subtree_after_erase) (auto simp: erased_children_of[OF r1] dest: subtree_closed)
  then have "?A \<union> (\<Union>c\<in>set cs. subtree (children_of s1) c)
               = (\<Union>c\<in>set (c # cs). subtree (children_of s) c)"
    by auto
  ultimately show ?case by simp
qed

lemma destroy_recursive_Suc:
  "destroy_recursive (Suc n) e s =
     (case for_each (destroy_recursive n) (children_of s e)
             (s\<lparr>scene_graph_transforms :=
                  index_insert (scene_graph_transforms s) e scene_graph_component_default\<rparr>) of
        None \<Rightarrow> None
      | Some s' \<Rightarrow>
          Some (s'\<lparr>world_transforms := (world_transforms s')(e := None),
                   scene_graph_transforms := (scene_graph_transforms s')(e := None)\<rparr>))"
  by (simp add: Let_def children_of_node_of node_of_def)

lemma children_of_index_insert [simp]:
  "children_of (s\<lparr>scene_graph_transforms :=
      index_insert (scene_graph_transforms s) e scene_graph_component_default\<rparr>) = children_of s"
  by (rule default_extends_children_of) simp

lemma erased_node:
  assumes "erased B (s\<lparr>scene_graph_transforms :=
              index_insert (scene_graph_transforms s) e scene_graph_component_default\<rparr>) s1"
  shows "erased (insert e B) s
           (s1\<lparr>world_transforms := (world_transforms s1)(e := None),
               scene_graph_transforms := (scene_graph_transforms s1)(e := None)\<rparr>)"
  using assms
  by (auto simp: erased_def restrict_map_def fun_eq_iff index_insert_apply)

lemma destroy_recursive_erased:
  "destroy_recursive n e s = Some s' \<Longrightarrow> erased (subtree (children_of s) e) s s'"
proof (induction n arbitrary: e s s')
  case 0
  then show ?case by simp
next
  case (Suc n)
  let ?s0 = "s\<lparr>scene_graph_transforms :=
               index_insert (scene_graph_transforms s) e scene_graph_component_default\<rparr>"
  from Suc.prems obtain s1 where
    loop: "for_each (destroy_recursive n) (children_of s e) ?s0 = Some s1" and
    s': "s' = s1\<lparr>world_transforms := (world_transforms s1)(e := None),
                  scene_graph_transforms := (scene_graph_transforms s1)(e := None)\<rparr>"
    by (auto simp only: destroy_recursive_Suc split: option.splits)
  have "erased (\<Union>c\<in>set (children_of s e). subtree (children_of ?s0) c) ?s0 s1"
    using loop by (rule for_each_erased) (rule Suc.IH)
  then have "erased (insert e (\<Union>c\<in>set (children_of s e). subtree (children_of s) c)) s s'"
    unfolding s' by (simp only: children_of_index_insert erased_node)
  then show ?case
    by (subst subtree_unfold)
qed

lemma destroy_recursive_mono_Suc:
  "destroy_recursive n e s = Some s' \<Longrightarrow> destroy_recursive (Suc n) e s = Some s'"
proof (induction n arbitrary: e s s')
  case 0
  then show ?case by simp
next
  case (Suc n)
  let ?s0 = "s\<lparr>scene_graph_transforms :=
               index_insert (scene_graph_transforms s) e scene_graph_component_default\<rparr>"
  from Suc.prems obtain s1 where
    loop: "for_each (destroy_recursive n) (children_of s e) ?s0 = Some s1" and
    s': "s' = s1\<lparr>world_transforms := (world_transforms s1)(e := None),
                  scene_graph_transforms := (scene_graph_transforms s1)(e := None)\<rparr>"
    by (auto simp only: destroy_recursive_Suc split: option.splits)
  from loop have "for_each (destroy_recursive (Suc n)) (children_of s e) ?s0 = Some s1"
    by (rule for_each_mono) (rule Suc.IH)
  then show ?case
    unfolding s' by (subst destroy_recursive_Suc) simp
qed

lemma destroy_recursive_mono:
  "n \<le> m \<Longrightarrow> destroy_recursive n e s = Some s' \<Longrightarrow> destroy_recursive m e s = Some s'"
proof (induction m)
  case 0
  then show ?case by simp
next
  case (Suc m)
  show ?case
  proof (cases "n = Suc m")
    case True
    with Suc.prems show ?thesis by simp
  next
    case False
    with Suc.prems have "n \<le> m" by simp
    then have "destroy_recursive m e s = Some s'" using Suc.prems(2) by (rule Suc.IH)
    then show ?thesis by (rule destroy_recursive_mono_Suc)
  qed
qed

lemma destroy_recursive_returns:
  fixes s :: "('p::one, 'v::zero) transform_system"
  assumes "acyclic_from ch e" and "\<And>x. set (children_of s x) \<subseteq> set (ch x)"
  shows "\<exists>n s'. destroy_recursive n e s = Some s'"
  using assms
proof (induction arbitrary: s rule: acyclic_from.induct)
  case (acyclic_fromI x)
  let ?s0 = "s\<lparr>scene_graph_transforms :=
               index_insert (scene_graph_transforms s) x scene_graph_component_default\<rparr>"
  let ?I = "\<lambda>a :: ('p, 'v) transform_system. \<forall>y. set (children_of a y) \<subseteq> set (ch y)"
  have "\<exists>n s'. for_each (destroy_recursive n) (children_of s x) ?s0 = Some s' \<and> ?I s'"
  proof (rule for_each_fuel[where body = destroy_recursive and I = ?I])
    show "\<And>n m c a b. n \<le> m \<Longrightarrow> destroy_recursive n c a = Some b
            \<Longrightarrow> destroy_recursive m c a = Some b"
      by (rule destroy_recursive_mono)
  next
    fix c and a :: "('p, 'v) transform_system"
    assume c: "c \<in> set (children_of s x)" and a: "?I a"
    from c acyclic_fromI.prems have "c \<in> set (ch x)" by blast
    from acyclic_fromI.IH[OF this, of a] a
    obtain n b where b: "destroy_recursive n c a = Some b" by blast
    from destroy_recursive_erased[OF b] a have "?I b"
      by (auto simp: erased_children_of)
    with b show "\<exists>n b. destroy_recursive n c a = Some b \<and> ?I b" by blast
  next
    show "?I ?s0" using acyclic_fromI.prems by simp
  qed
  then obtain n s1 where "for_each (destroy_recursive n) (children_of s x) ?s0 = Some s1"
    by blast
  then have "\<exists>s'. destroy_recursive (Suc n) x s = Some s'"
    by (subst destroy_recursive_Suc) simp
  then show ?case by blast
qed

section \<open>The public operations\<close>

lemma recalculate_world_transform_leaf:
  "children_of s e = [] \<Longrightarrow>
     recalculate_world_transform fuel e s = (if fuel = 0 then None else Some (recalculate_node e s))"
  by (cases fuel) (simp_all only: recalculate_world_transform_Suc recalculate_world_transform.simps
      for_each.simps, simp_all)

lemma transform_system_create_result:
  "transform_system_create fuel e lp ls s =
     (if fuel = 0 then None
      else Some (True,
        \<lparr>scene_graph_transforms = (scene_graph_transforms s)(e \<mapsto>
            \<lparr>get_entity = e, local_pose = lp, local_scale = ls, parent = kInvalidEntity,
             children = []\<rparr>),
         world_transforms = (world_transforms s)(e \<mapsto> \<lparr>get_entity = e, world_pose = lp\<rparr>)\<rparr>))"
proof -
  let ?s3 = "\<lparr>scene_graph_transforms = (scene_graph_transforms s)(e \<mapsto>
               \<lparr>get_entity = e, local_pose = lp, local_scale = ls, parent = kInvalidEntity,
                children = []\<rparr>),
             world_transforms = (world_transforms s)(e \<mapsto> world_transform_component_of e)\<rparr>"
  have 1: "transform_system_create fuel e lp ls s =
             (case recalculate_world_transform fuel e ?s3 of
                None \<Rightarrow> None | Some s' \<Rightarrow> Some (True, s'))"
    by (simp add: transform_system_create_def Let_def index_update_def
        scene_graph_component_of_def)
  have 2: "children_of ?s3 e = []" by (simp add: children_of_def)
  have 3: "recalculate_node e ?s3 =
             \<lparr>scene_graph_transforms = scene_graph_transforms ?s3,
              world_transforms = (world_transforms s)(e \<mapsto> \<lparr>get_entity = e, world_pose = lp\<rparr>)\<rparr>"
    by (simp add: recalculate_node_def Let_def world_transform_component_of_def)
  show ?thesis
    unfolding 1 recalculate_world_transform_leaf[OF 2] 3 by simp
qed

lemma add_child_cases:
  "add_child fuel p c s =
     (if p = kInvalidEntity then Some (Inl (Invalid_argument ''parent was invalid''), s)
      else if c = kInvalidEntity then Some (Inl (Invalid_argument ''child was invalid''), s)
      else if \<not> has_transform s p then
        Some (Inl (Invalid_argument ''parent has no transform component''), s)
      else if \<not> has_transform s c then
        Some (Inl (Invalid_argument ''child has no transform component''), s)
      else (case recalculate_world_transform fuel p (add_child_link p c s) of
              None \<Rightarrow> None
            | Some s' \<Rightarrow> Some (Inr True, s')))"
  by (simp add: add_child_def add_child_link_def Let_def)

lemma add_child_returns:
  assumes "add_child fuel p c s = Some (r, s')"
  shows "(\<exists>msg. r = Inl (Invalid_argument msg) \<and> s' = s) \<or>
         (r = Inr True \<and> p \<noteq> kInvalidEntity \<and> c \<noteq> kInvalidEntity \<and> has_transform s p \<and>
          has_transform s c \<and>
          recalculate_world_transform fuel p (add_child_link p c s) = Some s')"
  using assms unfolding add_child_cases
  by (auto split: if_splits option.splits)

lemma add_child_link_sg:
  assumes "scene_graph_transforms s p = Some np" and "scene_graph_transforms s c = Some nc"
  shows "scene_graph_transforms (add_child_link p c s) =
           (if c = p then (scene_graph_transforms s)(p \<mapsto> np\<lparr>children := children np @ [c], parent := p\<rparr>)
            else (scene_graph_transforms s)(p \<mapsto> np\<lparr>children := children np @ [c]\<rparr>,
                                            c \<mapsto> nc\<lparr>parent := p\<rparr>))"
  using assms by (auto simp: add_child_link_def Let_def index_update_def)

lemma add_child_link_wt [simp]:
  "world_transforms (add_child_link p c s) = world_transforms s"
  by (simp add: add_child_link_def Let_def)

lemma remove_parent_cases:
  "remove_parent fuel c s =
     (if parent (node_of (scene_graph_transforms s) c) \<noteq> kInvalidEntity
      then recalculate_world_transform fuel c (remove_parent_unlink c s)
      else Some (s\<lparr>scene_graph_transforms :=
                     index_insert (scene_graph_transforms s) c scene_graph_component_default\<rparr>))"
  by (simp add: remove_parent_def remove_parent_unlink_def Let_def node_of_def)

lemma remove_parent_unlink_wt [simp]:
  "world_transforms (remove_parent_unlink c s) = world_transforms s"
  by (simp add: remove_parent_unlink_def Let_def)

lemma remove_parent_unlink_sg:
  assumes "scene_graph_transforms s c = Some nc"
  shows "scene_graph_transforms (remove_parent_unlink c s) =
           (if parent nc = c
            then (scene_graph_transforms s)(c \<mapsto>
                   nc\<lparr>children := removeAll c (children nc), parent := kInvalidEntity\<rparr>)
            else (scene_graph_transforms s)(parent nc \<mapsto>
                   (node_of (scene_graph_transforms s) (parent nc))
                     \<lparr>children := removeAll c (children (node_of (scene_graph_transforms s) (parent nc)))\<rparr>,
                   c \<mapsto> nc\<lparr>parent := kInvalidEntity\<rparr>))"
  using assms
  by (auto simp: remove_parent_unlink_def Let_def index_update_def node_of_def index_value_def
      split: option.splits)

lemma destroy_cases:
  "destroy fuel e s =
     (if e = kInvalidEntity then Some (Inl (Invalid_argument ''parent was invalid''), s)
      else if \<not> has_transform s e then
        Some (Inl (Invalid_argument ''no component exists for this entity''), s)
      else (case destroy_recursive fuel e s of None \<Rightarrow> None | Some s' \<Rightarrow> Some (Inr (), s')))"
  by (simp add: destroy_def)

lemma destroy_returns:
  assumes "destroy fuel e s = Some (r, s')"
  shows "(\<exists>msg. r = Inl (Invalid_argument msg) \<and> s' = s) \<or>
         (r = Inr () \<and> e \<noteq> kInvalidEntity \<and> has_transform s e \<and>
          destroy_recursive fuel e s = Some s')"
  using assms unfolding destroy_cases
  by (auto split: if_splits option.splits)

section \<open>Reachable states have no cycles\<close>

lemma children_of_create:
  assumes "transform_system_create fuel e lp ls s = Some (r, s')"
  shows "children_of s' x = (if x = e then [] else children_of s x)"
  using assms unfolding transform_system_create_result
  by (auto simp: children_of_def split: if_splits)

lemma children_of_add_child_link:
  assumes "has_transform s p" and "has_transform s c"
  shows "children_of (add_child_link p c s) x =
           (if x = p then children_of s p @ [c] else children_of s x)"
proof -
  from assms obtain np nc where "scene_graph_transforms s p = Some np"
    "scene_graph_transforms s c = Some nc"
    by (auto simp: has_transform_def)
  then show ?thesis
    by (auto simp: add_child_link_sg children_of_def)
qed

lemma children_of_remove_parent_unlink:
  assumes "scene_graph_transforms s c = Some nc"
  shows "set (children_of (remove_parent_unlink c s) x) \<subseteq> set (children_of s x)"
proof -
  have c: "children_of s c = children nc"
    by (simp add: children_of_def assms)
  show ?thesis
  proof (cases "parent nc = c")
    case True
    have "children_of (remove_parent_unlink c s) x =
            (if x = c then removeAll c (children nc) else children_of s x)"
      unfolding children_of_def remove_parent_unlink_sg[OF assms] using True by simp
    then show ?thesis
      by (simp add: c)
  next
    case False
    let ?q = "parent nc"
    have "children_of (remove_parent_unlink c s) x =
            (if x = c then children nc
             else if x = ?q then removeAll c (children_of s ?q) else children_of s x)"
      unfolding children_of_def remove_parent_unlink_sg[OF assms] using False
      by (simp add: children_of_node_of[unfolded children_of_def, symmetric])
    then show ?thesis
      by (simp add: c)
  qed
qed

lemma children_of_remove_parent:
  assumes "remove_parent fuel c s = Some s'"
  shows "set (children_of s' x) \<subseteq> set (children_of s x)"
proof (cases "parent (node_of (scene_graph_transforms s) c) \<noteq> kInvalidEntity")
  case True
  with assms have "recalculate_world_transform fuel c (remove_parent_unlink c s) = Some s'"
    by (simp add: remove_parent_cases)
  then have "children_of s' = children_of (remove_parent_unlink c s)"
    by (rule recalculate_world_transform_children_of)
  moreover from True obtain nc where "scene_graph_transforms s c = Some nc"
    by (cases "scene_graph_transforms s c")
       (auto simp: node_of_def scene_graph_component_default_def scene_graph_component_of_def)
  ultimately show ?thesis by (simp add: children_of_remove_parent_unlink)
next
  case False
  with assms have "s' = s\<lparr>scene_graph_transforms :=
      index_insert (scene_graph_transforms s) c scene_graph_component_default\<rparr>"
    by (simp add: remove_parent_cases)
  then show ?thesis by simp
qed

lemma children_of_destroy:
  assumes "destroy fuel e s = Some (r, s')"
  shows "set (children_of s' x) \<subseteq> set (children_of s x)"
  using destroy_returns[OF assms]
  by (auto dest!: destroy_recursive_erased simp: erased_children_of split: if_splits)

lemma acyclic_add_child:
  assumes all: "\<And>x. acyclic_from (children_of s) x"
    and ret: "add_child fuel p c s = Some (r, s')"
  shows "acyclic_from (children_of s') x"
proof -
  from add_child_returns[OF ret] show ?thesis
  proof
    assume "\<exists>msg. r = Inl (Invalid_argument msg) \<and> s' = s"
    then show ?thesis using all by simp
  next
    assume ok: "r = Inr True \<and> p \<noteq> kInvalidEntity \<and> c \<noteq> kInvalidEntity \<and> has_transform s p \<and>
      has_transform s c \<and> recalculate_world_transform fuel p (add_child_link p c s) = Some s'"
    let ?s2 = "add_child_link p c s"
    from ok have rec: "recalculate_world_transform fuel p ?s2 = Some s'" by simp
    have p: "acyclic_from (children_of ?s2) p"
      using rec by (rule recalculate_world_transform_acyclic)
    have ch: "children_of ?s2 y = (if y = p then children_of s p @ [c] else children_of s y)" for y
      using ok by (simp add: children_of_add_child_link)
    have "acyclic_from (children_of ?s2) x"
      using all[of x]
    proof (induction rule: acyclic_from.induct)
      case (acyclic_fromI y)
      show ?case
      proof (cases "y = p")
        case True
        then show ?thesis using p by simp
      next
        case False
        show ?thesis
          by (rule acyclic_from.intros) (use False acyclic_fromI.IH ch in auto)
      qed
    qed
    then show ?thesis
      by (simp add: recalculate_world_transform_children_of[OF rec])
  qed
qed

lemma reachable_acyclic:
  "reachable s \<Longrightarrow> acyclic_from (children_of s) x"
proof (induction arbitrary: x rule: reachable.induct)
  case reachable_init
  show ?case
    by (rule acyclic_from.intros) (simp add: children_of_def transform_system_init_def)
next
  case (reachable_create s fuel e lp ls r s')
  show ?case
    by (rule acyclic_from_antimono[OF reachable_create.IH[of x]])
       (simp add: children_of_create[OF reachable_create.hyps(2)])
next
  case (reachable_add_child s fuel p c r' s')
  show ?case
    using reachable_add_child.IH reachable_add_child.hyps(2) by (rule acyclic_add_child)
next
  case (reachable_remove_parent s fuel c s')
  show ?case
    by (rule acyclic_from_antimono[OF reachable_remove_parent.IH[of x]])
       (rule children_of_remove_parent[OF reachable_remove_parent.hyps(2)])
next
  case (reachable_destroy s fuel e r'' s')
  show ?case
    by (rule acyclic_from_antimono[OF reachable_destroy.IH[of x]])
       (rule children_of_destroy[OF reachable_destroy.hyps(2)])
qed

section \<open>The world-transform table in reachable states\<close>

lemma recalculated_world_tables_ok:
  assumes rec: "recalculated S s s'"
    and dom: "\<And>x. x \<notin> S \<Longrightarrow> world_transforms s x \<noteq> None \<Longrightarrow> scene_graph_transforms s x \<noteq> None"
    and root: "\<And>x node w. x \<notin> S \<Longrightarrow> scene_graph_transforms s x = Some node
                 \<Longrightarrow> parent node = kInvalidEntity \<Longrightarrow> world_transforms s x = Some w
                 \<Longrightarrow> world_pose w = local_pose node"
  shows "world_tables_ok s'"
proof -
  have ext: "default_extends (scene_graph_transforms s) (scene_graph_transforms s')"
    and rule: "\<And>x. x \<in> S \<Longrightarrow> world_pose_rule s' x"
    and same: "\<And>x. x \<notin> S \<Longrightarrow> world_transforms s' x = world_transforms s x"
    using rec by (simp_all add: recalculated_def)
  have d: "scene_graph_transforms s' x \<noteq> None" if "world_transforms s' x \<noteq> None" for x
  proof (cases "x \<in> S")
    case True
    from rule[OF this] show ?thesis by (auto simp: world_pose_rule_def)
  next
    case False
    with that same have "world_transforms s x \<noteq> None" by simp
    with dom False obtain n where "scene_graph_transforms s x = Some n" by blast
    with ext show ?thesis by (simp add: default_extends_Some)
  qed
  have r: "world_pose w = local_pose node"
    if n: "scene_graph_transforms s' x = Some node" and p: "parent node = kInvalidEntity"
      and w: "world_transforms s' x = Some w" for x node w
  proof (cases "x \<in> S")
    case True
    from rule[OF this] n p w show ?thesis by (auto simp: world_pose_rule_def)
  next
    case False
    with w same have w0: "world_transforms s x = Some w" by simp
    with dom False obtain n0 where n0: "scene_graph_transforms s x = Some n0" by blast
    with ext have "scene_graph_transforms s' x = Some n0" by (simp add: default_extends_Some)
    with n have "n0 = node" by simp
    with root[OF False n0 _ w0] p show ?thesis by simp
  qed
  show ?thesis
    unfolding world_tables_ok_def using d r by blast
qed

lemma world_tables_ok_create:
  assumes "world_tables_ok s" and "transform_system_create fuel e lp ls s = Some (r, s')"
  shows "world_tables_ok s'"
  using assms unfolding transform_system_create_result world_tables_ok_def
  by (auto split: if_splits)

lemma world_tables_ok_add_child:
  assumes ok: "world_tables_ok s" and ret: "add_child fuel p c s = Some (r, s')"
  shows "world_tables_ok s'"
proof -
  from add_child_returns[OF ret] show ?thesis
  proof
    assume "\<exists>msg. r = Inl (Invalid_argument msg) \<and> s' = s"
    then show ?thesis using ok by auto
  next
    assume a: "r = Inr True \<and> p \<noteq> kInvalidEntity \<and> c \<noteq> kInvalidEntity \<and> has_transform s p \<and>
      has_transform s c \<and> recalculate_world_transform fuel p (add_child_link p c s) = Some s'"
    let ?s2 = "add_child_link p c s"
    let ?S = "subtree (children_of ?s2) p"
    from a obtain np nc where np: "scene_graph_transforms s p = Some np"
      and nc: "scene_graph_transforms s c = Some nc"
      by (auto simp: has_transform_def)
    have pS: "p \<in> ?S" by (rule subtree.subtree_root)
    have "c \<in> set (children_of ?s2 p)"
      using a by (simp add: children_of_add_child_link)
    with pS have cS: "c \<in> ?S" by (rule subtree.subtree_child)
    have sg2: "scene_graph_transforms ?s2 x = scene_graph_transforms s x" if "x \<notin> ?S" for x
      using that pS cS by (auto simp: add_child_link_sg[OF np nc])
    from a have "recalculate_world_transform fuel p ?s2 = Some s'" by simp
    then have "recalculated ?S ?s2 s'"
      by (rule recalculate_world_transform_recalculated)
    then show ?thesis
    proof (rule recalculated_world_tables_ok)
      fix x assume "x \<notin> ?S" "world_transforms ?s2 x \<noteq> None"
      then show "scene_graph_transforms ?s2 x \<noteq> None"
        using ok by (simp add: sg2 world_tables_ok_def)
    next
      fix x node w
      assume "x \<notin> ?S" "scene_graph_transforms ?s2 x = Some node" "parent node = kInvalidEntity"
        "world_transforms ?s2 x = Some w"
      then show "world_pose w = local_pose node"
        using ok by (simp add: sg2 world_tables_ok_def)
    qed
  qed
qed

lemma world_tables_ok_remove_parent:
  assumes ok: "world_tables_ok s" and ret: "remove_parent fuel c s = Some s'"
  shows "world_tables_ok s'"
proof (cases "parent (node_of (scene_graph_transforms s) c) \<noteq> kInvalidEntity")
  case False
  with ret have s': "s' = s\<lparr>scene_graph_transforms :=
      index_insert (scene_graph_transforms s) c scene_graph_component_default\<rparr>"
    by (simp add: remove_parent_cases)
  show ?thesis
    using ok unfolding s' world_tables_ok_def
    by (auto simp: index_insert_apply split: if_splits)
next
  case True
  let ?s2 = "remove_parent_unlink c s"
  let ?S = "subtree (children_of ?s2) c"
  let ?t = "scene_graph_transforms s"
  from True obtain nc where nc: "?t c = Some nc"
    by (cases "?t c")
       (auto simp: node_of_def scene_graph_component_default_def scene_graph_component_of_def)
  have cS: "c \<in> ?S" by (rule subtree.subtree_root)
  from True ret have "recalculate_world_transform fuel c ?s2 = Some s'"
    by (simp add: remove_parent_cases)
  then have "recalculated ?S ?s2 s'"
    by (rule recalculate_world_transform_recalculated)
  then show ?thesis
  proof (rule recalculated_world_tables_ok)
    fix x assume "x \<notin> ?S" "world_transforms ?s2 x \<noteq> None"
    then show "scene_graph_transforms ?s2 x \<noteq> None"
      using ok by (auto simp: remove_parent_unlink_sg[OF nc] world_tables_ok_def)
  next
    fix x node w
    assume x: "x \<notin> ?S" and n: "scene_graph_transforms ?s2 x = Some node"
      and p: "parent node = kInvalidEntity" and w: "world_transforms ?s2 x = Some w"
    from x cS have xc: "x \<noteq> c" by blast
    from w have w0: "world_transforms s x = Some w" by simp
    with ok obtain n0 where n0: "?t x = Some n0" by (auto simp: world_tables_ok_def)
    have "local_pose node = local_pose n0 \<and> parent node = parent n0"
      using n xc n0 by (auto simp: remove_parent_unlink_sg[OF nc] node_of_def split: if_splits)
    with ok n0 w0 p show "world_pose w = local_pose node"
      by (auto simp: world_tables_ok_def)
  qed
qed

lemma world_tables_ok_destroy:
  assumes ok: "world_tables_ok s" and ret: "destroy fuel e s = Some (r, s')"
  shows "world_tables_ok s'"
proof -
  from destroy_returns[OF ret] show ?thesis
  proof
    assume "\<exists>msg. r = Inl (Invalid_argument msg) \<and> s' = s"
    then show ?thesis using ok by auto
  next
    assume "r = Inr () \<and> e \<noteq> kInvalidEntity \<and> has_transform s e \<and>
      destroy_recursive fuel e s = Some s'"
    then have "destroy_recursive fuel e s = Some s'" by simp
    then have "erased (subtree (children_of s) e) s s'"
      by (rule destroy_recursive_erased)
    then show ?thesis
      using ok unfolding erased_def world_tables_ok_def
      by (auto simp: restrict_map_def split: if_splits)
  qed
qed

lemma reachable_world_tables_ok: "reachable s \<Longrightarrow> world_tables_ok s"
proof (induction rule: reachable.induct)
  case reachable_init
  show ?case by (simp add: world_tables_ok_def transform_system_init_def)
next
  case (reachable_create s fuel e lp ls r s')
  then show ?case by (blast intro: world_tables_ok_create)
next
  case (reachable_add_child s fuel p c r' s')
  then show ?case by (blast intro: world_tables_ok_add_child)
next
  case (reachable_remove_parent s fuel c s')
  then show ?case by (blast intro: world_tables_ok_remove_parent)
next
  case (reachable_destroy s fuel e r'' s')
  then show ?case by (blast intro: world_tables_ok_destroy)
qed

section \<open>The scenes of the example program\<close>

lemma recalculate_world_transform_numeral:
  "recalculate_world_transform (numeral k) e s =
     for_each (recalculate_world_transform (pred_numeral k)) (children_of s e)
       (recalculate_node e s)"
  by (simp only: numeral_eq_Suc recalculate_world_transform_Suc)

lemmas scene_eval =
  add_child_cases has_transform_def kInvalidEntity_def add_child_link_def Let_def
  index_update_def index_value_def index_insert_def recalculate_node_def children_of_def
  fun_eq_iff recalculate_world_transform_Suc recalculate_world_transform_numeral get_parent_def

lemma created_steps:
  "transform_system_create 1 1 5 1 (transform_system_init :: (int, int) transform_system)
     = Some (True,
         \<lparr>scene_graph_transforms =
            [1 \<mapsto> \<lparr>get_entity = 1, local_pose = 5, local_scale = 1, parent = 0, children = []\<rparr>],
          world_transforms = [1 \<mapsto> \<lparr>get_entity = 1, world_pose = 5\<rparr>]\<rparr>)"
  "transform_system_create 1 2 3 1
     \<lparr>scene_graph_transforms =
        [1 \<mapsto> \<lparr>get_entity = 1, local_pose = 5::int, local_scale = 1::int, parent = 0, children = []\<rparr>],
      world_transforms = [1 \<mapsto> \<lparr>get_entity = 1, world_pose = 5\<rparr>]\<rparr>
     = Some (True,
         \<lparr>scene_graph_transforms =
            [1 \<mapsto> \<lparr>get_entity = 1, local_pose = 5, local_scale = 1, parent = 0, children = []\<rparr>,
             2 \<mapsto> \<lparr>get_entity = 2, local_pose = 3, local_scale = 1, parent = 0, children = []\<rparr>],
          world_transforms = [1 \<mapsto> \<lparr>get_entity = 1, world_pose = 5\<rparr>,
                              2 \<mapsto> \<lparr>get_entity = 2, world_pose = 3\<rparr>]\<rparr>)"
  "transform_system_create 1 3 4 1
     \<lparr>scene_graph_transforms =
        [1 \<mapsto> \<lparr>get_entity = 1, local_pose = 5::int, local_scale = 1::int, parent = 0, children = []\<rparr>,
         2 \<mapsto> \<lparr>get_entity = 2, local_pose = 3, local_scale = 1, parent = 0, children = []\<rparr>],
      world_transforms = [1 \<mapsto> \<lparr>get_entity = 1, world_pose = 5\<rparr>,
                          2 \<mapsto> \<lparr>get_entity = 2, world_pose = 3\<rparr>]\<rparr>
     = Some (True, scene_created)"
  by (simp_all add: transform_system_create_result transform_system_init_def kInvalidEntity_def
      scene_created_def)

lemma linked_steps:
  "add_child 2 1 2 scene_created = Some (Inr True,
     \<lparr>scene_graph_transforms =
        [1 \<mapsto> \<lparr>get_entity = 1, local_pose = 5, local_scale = 1, parent = 0, children = [2]\<rparr>,
         2 \<mapsto> \<lparr>get_entity = 2, local_pose = 3, local_scale = 1, parent = 1, children = []\<rparr>,
         3 \<mapsto> \<lparr>get_entity = 3, local_pose = 4, local_scale = 1, parent = 0, children = []\<rparr>],
      world_transforms =
        [1 \<mapsto> \<lparr>get_entity = 1, world_pose = 5\<rparr>,
         2 \<mapsto> \<lparr>get_entity = 2, world_pose = 15\<rparr>,
         3 \<mapsto> \<lparr>get_entity = 3, world_pose = 4\<rparr>]\<rparr>)"
  "add_child 2 1 3
     \<lparr>scene_graph_transforms =
        [1 \<mapsto> \<lparr>get_entity = 1, local_pose = 5::int, local_scale = 1::int, parent = 0, children = [2]\<rparr>,
         2 \<mapsto> \<lparr>get_entity = 2, local_pose = 3, local_scale = 1, parent = 1, children = []\<rparr>,
         3 \<mapsto> \<lparr>get_entity = 3, local_pose = 4, local_scale = 1, parent = 0, children = []\<rparr>],
      world_transforms =
        [1 \<mapsto> \<lparr>get_entity = 1, world_pose = 5\<rparr>,
         2 \<mapsto> \<lparr>get_entity = 2, world_pose = 15\<rparr>,
         3 \<mapsto> \<lparr>get_entity = 3, world_pose = 4\<rparr>]\<rparr>
     = Some (Inr True, scene_linked)"
  by (simp_all add: scene_eval scene_created_def scene_linked_def
      del: recalculate_world_transform.simps)

lemma linked_twice_step:
  "add_child 2 1 2 scene_linked = Some (Inr True, scene_linked_twice)"
  by (simp add: scene_eval scene_linked_def scene_linked_twice_def
      del: recalculate_world_transform.simps)

lemma reparented_steps:
  "add_child 2 1 3 scene_created = Some (Inr True,
     \<lparr>scene_graph_transforms =
        [1 \<mapsto> \<lparr>get_entity = 1, local_pose = 5, local_scale = 1, parent = 0, children = [3]\<rparr>,
         2 \<mapsto> \<lparr>get_entity = 2, local_pose = 3, local_scale = 1, parent = 0, children = []\<rparr>,
         3 \<mapsto> \<lparr>get_entity = 3, local_pose = 4, local_scale = 1, parent = 1, children = []\<rparr>],
      world_transforms =
        [1 \<mapsto> \<lparr>get_entity = 1, world_pose = 5\<rparr>,
         2 \<mapsto> \<lparr>get_entity = 2, world_pose = 3\<rparr>,
         3 \<mapsto> \<lparr>get_entity = 3, world_pose = 20\<rparr>]\<rparr>)"
  "add_child 2 2 3
     \<lparr>scene_graph_transforms =
        [1 \<mapsto> \<lparr>get_entity = 1, local_pose = 5::int, local_scale = 1::int, parent = 0, children = [3]\<rparr>,
         2 \<mapsto> \<lparr>get_entity = 2, local_pose = 3, local_scale = 1, parent = 0, children = []\<rparr>,
         3 \<mapsto> \<lparr>get_entity = 3, local_pose = 4, local_scale = 1, parent = 1, children = []\<rparr>],
      world_transforms =
        [1 \<mapsto> \<lparr>get_entity = 1, world_pose = 5\<rparr>,
         2 \<mapsto> \<lparr>get_entity = 2, world_pose = 3\<rparr>,
         3 \<mapsto> \<lparr>get_entity = 3, world_pose = 20\<rparr>]\<rparr>
     = Some (Inr True, scene_reparented)"
  by (simp_all add: scene_eval scene_created_def scene_reparented_def
      del: recalculate_world_transform.simps)

lemma reachable_scene_created: "reachable scene_created"
  by (rule reachable_create[OF reachable_create[OF reachable_create[OF reachable_init
      created_steps(1)] created_steps(2)] created_steps(3)])

lemma reachable_scene_linked: "reachable scene_linked"
  by (rule reachable_add_child[OF reachable_add_child[OF reachable_scene_created
      linked_steps(1)] linked_steps(2)])

lemma reachable_scene_reparented: "reachable scene_reparented"
  by (rule reachable_add_child[OF reachable_add_child[OF reachable_scene_created
      reparented_steps(1)] reparented_steps(2)])

lemma disciplined_scene_linked: "reachable_disciplined scene_linked"
proof -
  have "reachable_disciplined (transform_system_init :: (int, int) transform_system)"
    by (rule disciplined_init)
  from disciplined_create[OF this _ _ created_steps(1)]
  have "reachable_disciplined
     \<lparr>scene_graph_transforms =
        [1 \<mapsto> \<lparr>get_entity = 1, local_pose = 5::int, local_scale = 1::int, parent = 0, children = []\<rparr>],
      world_transforms = [1 \<mapsto> \<lparr>get_entity = 1, world_pose = 5\<rparr>]\<rparr>"
    by (simp add: has_transform_def kInvalidEntity_def transform_system_init_def)
  from disciplined_create[OF this _ _ created_steps(2)]
  have "reachable_disciplined
     \<lparr>scene_graph_transforms =
        [1 \<mapsto> \<lparr>get_entity = 1, local_pose = 5::int, local_scale = 1::int, parent = 0, children = []\<rparr>,
         2 \<mapsto> \<lparr>get_entity = 2, local_pose = 3, local_scale = 1, parent = 0, children = []\<rparr>],
      world_transforms = [1 \<mapsto> \<lparr>get_entity = 1, world_pose = 5\<rparr>,
                          2 \<mapsto> \<lparr>get_entity = 2, world_pose = 3\<rparr>]\<rparr>"
    by (simp add: has_transform_def kInvalidEntity_def)
  from disciplined_create[OF this _ _ created_steps(3)]
  have "reachable_disciplined scene_created"
    by (simp add: has_transform_def kInvalidEntity_def)
  from disciplined_add_child[OF this _ linked_steps(1)]
  have "reachable_disciplined
     \<lparr>scene_graph_transforms =
        [1 \<mapsto> \<lparr>get_entity = 1, local_pose = 5::int, local_scale = 1::int, parent = 0, children = [2]\<rparr>,
         2 \<mapsto> \<lparr>get_entity = 2, local_pose = 3, local_scale = 1, parent = 1, children = []\<rparr>,
         3 \<mapsto> \<lparr>get_entity = 3, local_pose = 4, local_scale = 1, parent = 0, children = []\<rparr>],
      world_transforms =
        [1 \<mapsto> \<lparr>get_entity = 1, world_pose = 5\<rparr>,
         2 \<mapsto> \<lparr>get_entity = 2, world_pose = 15\<rparr>,
         3 \<mapsto> \<lparr>get_entity = 3, world_pose = 4\<rparr>]\<rparr>"
    by (simp add: get_parent_def kInvalidEntity_def scene_created_def)
  from disciplined_add_child[OF this _ linked_steps(2)]
  show ?thesis
    by (simp add: get_parent_def kInvalidEntity_def)
qed

section \<open>Rejected calls\<close>

text \<open>
  C6.  \<open>add_child\<close> throws \<open>std::invalid_argument\<close> whenever the parent or the child is
  the invalid entity or has no scene-graph record, and \<open>destroy\<close> throws it whenever the
  entity is the invalid entity or has no scene-graph record.  In each of these calls both
  tables are as they were.
\<close>

theorem invalid_argument_leaves_tables:
  "(parent_e = kInvalidEntity \<or> child = kInvalidEntity \<or> \<not> has_transform s parent_e \<or>
      \<not> has_transform s child
      \<longrightarrow> (\<exists>msg. add_child fuel parent_e child s = Some (Inl (Invalid_argument msg), s)))
   \<and> (e = kInvalidEntity \<or> \<not> has_transform s e
      \<longrightarrow> (\<exists>msg. destroy fuel e s = Some (Inl (Invalid_argument msg), s)))"
  by (simp add: add_child_cases destroy_cases)

theorem invalid_argument_leaves_tables_witness:
  "\<not> has_transform scene_created 7
   \<and> (\<exists>msg. add_child 0 1 7 scene_created = Some (Inl (Invalid_argument msg), scene_created))
   \<and> (\<exists>msg. destroy 0 7 scene_created = Some (Inl (Invalid_argument msg), scene_created))"
proof -
  have h: "\<not> has_transform scene_created 7"
    by (simp add: has_transform_def scene_created_def)
  with invalid_argument_leaves_tables[of 1 7 scene_created 0 7] show ?thesis
    by blast
qed

section \<open>Type-erased creation\<close>

lemma ex_system_create_spec:
  "ex_system_one_create e hash data sys =
     (if hash = c1 sys
      then (True, sys\<lparr>physics_components := (physics_components sys)(e \<mapsto> data)\<rparr>)
      else (False, sys))"
  "ex_system_two_create e hash data' sys' =
     (if hash = c2 sys'
      then (True, sys'\<lparr>render_components := (render_components sys')(e \<mapsto> data')\<rparr>)
      else (False, sys'))"
  by (simp_all add: ex_system_one_create_def ex_system_two_create_def)

text \<open>
  C7 holds for the two data-component systems (\<open>ex_system_create_spec\<close>) but not for the
  transform system: its type-erased \<open>create\<close> returns \<open>true\<close> for every type tag and stores
  nothing.
\<close>

theorem transform_system_create_erased_accepts:
  "transform_system_create_erased e hash data s = (True, s)"
  by (simp add: transform_system_create_erased_def)

section \<open>\<open>remove_parent\<close> on an entity without record\<close>

text \<open>
  C10.  In a reachable state, \<open>remove_parent\<close> on an entity without scene-graph record
  returns, whatever the recursion depth it is given: it inserts the default record
  (no parent, no children) for the entity, so that \<open>has_transform\<close> holds afterwards,
  and it leaves the world-transform table as it was, without an entry for the entity.
\<close>

theorem remove_parent_default_inserts:
  fixes s :: "('p::{one,times}, 'v::zero) transform_system"
  assumes "reachable s" and "\<not> has_transform s e"
  shows "\<exists>s'. remove_parent fuel e s = Some s'
           \<and> scene_graph_transforms s' = (scene_graph_transforms s)(e \<mapsto> scene_graph_component_default)
           \<and> parent (scene_graph_component_default :: ('p, 'v) scene_graph_component)
                = kInvalidEntity
           \<and> children (scene_graph_component_default :: ('p, 'v) scene_graph_component) = []
           \<and> has_transform s' e
           \<and> world_transforms s' = world_transforms s
           \<and> world_transforms s' e = None"
proof -
  from assms(2) have n: "scene_graph_transforms s e = None"
    by (simp add: has_transform_def)
  have "world_tables_ok s" using assms(1) by (rule reachable_world_tables_ok)
  with n have w: "world_transforms s e = None"
    unfolding world_tables_ok_def by (cases "world_transforms s e") auto
  have d: "parent (scene_graph_component_default :: ('p, 'v) scene_graph_component) = kInvalidEntity"
    "children (scene_graph_component_default :: ('p, 'v) scene_graph_component) = []"
    by (simp_all add: scene_graph_component_default_def scene_graph_component_of_def)
  have "remove_parent fuel e s = Some (s\<lparr>scene_graph_transforms :=
      index_insert (scene_graph_transforms s) e scene_graph_component_default\<rparr>)"
    using n d(1) by (simp add: remove_parent_cases node_of_def)
  moreover have "index_insert (scene_graph_transforms s) e scene_graph_component_default
      = (scene_graph_transforms s)(e \<mapsto> scene_graph_component_default)"
    using n by (simp add: index_insert_def)
  ultimately show ?thesis
    using w d by (simp add: has_transform_def)
qed

theorem remove_parent_default_inserts_witness:
  "reachable scene_created \<and> \<not> has_transform scene_created 7
   \<and> (\<exists>s'. remove_parent 0 7 scene_created = Some s' \<and> has_transform s' 7
          \<and> world_transforms s' 7 = None)"
proof -
  have h: "\<not> has_transform scene_created 7"
    by (simp add: has_transform_def scene_created_def)
  from remove_parent_default_inserts[OF reachable_scene_created h, of 0]
  show ?thesis using reachable_scene_created h by blast
qed

section \<open>Results do not depend on the recursion depth\<close>

lemma recalculate_world_transform_deterministic:
  assumes "recalculate_world_transform n e s = Some a"
    and "recalculate_world_transform m e s = Some b"
  shows "a = b"
proof -
  have "recalculate_world_transform (max n m) e s = Some a"
    using assms(1) by (rule recalculate_world_transform_mono[rotated]) simp
  moreover have "recalculate_world_transform (max n m) e s = Some b"
    using assms(2) by (rule recalculate_world_transform_mono[rotated]) simp
  ultimately show ?thesis by simp
qed

lemma destroy_recursive_deterministic:
  assumes "destroy_recursive n e s = Some a" and "destroy_recursive m e s = Some b"
  shows "a = b"
proof -
  have "destroy_recursive (max n m) e s = Some a"
    using assms(1) by (rule destroy_recursive_mono[rotated]) simp
  moreover have "destroy_recursive (max n m) e s = Some b"
    using assms(2) by (rule destroy_recursive_mono[rotated]) simp
  ultimately show ?thesis by simp
qed

section \<open>\<open>add_child\<close>\<close>

lemma acyclic_add_child_link:
  assumes all: "\<And>x. acyclic_from (children_of s) x"
    and p: "has_transform s p" and c: "has_transform s c"
    and np: "p \<notin> subtree (children_of s) c"
  shows "acyclic_from (children_of (add_child_link p c s)) p"
proof -
  let ?ch = "children_of s" and ?ch2 = "children_of (add_child_link p c s)"
  have ch2: "?ch2 y = (if y = p then ?ch p @ [c] else ?ch y)" for y
    using p c by (rule children_of_add_child_link)
  have below: "acyclic_from ?ch2 y" if "p \<notin> subtree ?ch y" for y
    using all[of y] that
  proof (induction rule: acyclic_from.induct)
    case (acyclic_fromI y)
    from acyclic_fromI.prems have yp: "y \<noteq> p"
      by (auto intro: subtree.subtree_root)
    show ?case
    proof (rule acyclic_from.intros)
      fix c' assume "c' \<in> set (?ch2 y)"
      with yp have c': "c' \<in> set (?ch y)" by (simp add: ch2)
      have "p \<notin> subtree ?ch c'"
      proof
        assume "p \<in> subtree ?ch c'"
        moreover have "c' \<in> subtree ?ch y"
          using c' by (auto intro: subtree.intros)
        ultimately have "p \<in> subtree ?ch y" by (rule subtree_trans)
        with acyclic_fromI.prems show False by simp
      qed
      with c' show "acyclic_from ?ch2 c'" by (rule acyclic_fromI.IH)
    qed
  qed
  show ?thesis
  proof (rule acyclic_from.intros)
    fix c' assume "c' \<in> set (?ch2 p)"
    then have "c' \<in> set (?ch p) \<or> c' = c" by (auto simp: ch2)
    then have "p \<notin> subtree ?ch c'"
      using acyclic_from_not_in_child_subtree[OF all[of p]] np by auto
    then show "acyclic_from ?ch2 c'" by (rule below)
  qed
qed

lemma add_child_returns_ok:
  fixes s :: "('p::{one,times}, 'v::zero) transform_system"
  assumes "reachable s" and "p \<noteq> kInvalidEntity" and "c \<noteq> kInvalidEntity"
    and "has_transform s p" and "has_transform s c" and "p \<notin> subtree (children_of s) c"
  shows "\<exists>fuel s'. add_child fuel p c s = Some (Inr True, s')"
proof -
  have "acyclic_from (children_of (add_child_link p c s)) p"
    using reachable_acyclic[OF assms(1)] assms(4-6) by (rule acyclic_add_child_link)
  then obtain fuel s' where
    "recalculate_world_transform fuel p (add_child_link p c s) = Some s'"
    using recalculate_world_transform_returns by blast
  then have "add_child fuel p c s = Some (Inr True, s')"
    using assms(2-5) by (simp add: add_child_cases)
  then show ?thesis by blast
qed

lemma add_child_deterministic:
  assumes "add_child n p c s = Some a" and "add_child m p c s = Some b"
  shows "a = b"
  using assms recalculate_world_transform_deterministic[of n p "add_child_link p c s" _ m]
  unfolding add_child_cases
  by (auto split: if_splits option.splits)


section \<open>The world-pose rule\<close>



section \<open>Destruction of a subtree\<close>

lemma erased_in:
  "erased S s s' \<Longrightarrow> d \<in> S \<Longrightarrow>
     scene_graph_transforms s' d = None \<and> world_transforms s' d = None"
  by (simp add: erased_def restrict_map_def)

lemma erased_out:
  "erased S s s' \<Longrightarrow> d \<notin> S \<Longrightarrow>
     scene_graph_transforms s' d = scene_graph_transforms s d \<and>
     world_transforms s' d = world_transforms s d"
  by (simp add: erased_def restrict_map_def)

lemma acyclic_from_after_erase:
  assumes "acyclic_from ch' y"
    and ch': "\<And>x. ch' x = (if x \<in> A then [] else ch x)"
    and A: "\<And>x. x \<in> A \<Longrightarrow> acyclic_from ch x"
  shows "acyclic_from ch y"
  using assms(1)
proof (induction rule: acyclic_from.induct)
  case (acyclic_fromI y)
  show ?case
  proof (cases "y \<in> A")
    case True
    then show ?thesis by (rule A)
  next
    case False
    then have "ch' y = ch y" by (simp add: ch')
    with acyclic_fromI.IH show ?thesis by (auto intro: acyclic_from.intros)
  qed
qed

lemma for_each_destroy_acyclic:
  assumes loop: "for_each body cs s = Some s'"
    and er: "\<And>c a b. c \<in> set cs \<Longrightarrow> body c a = Some b \<Longrightarrow> erased (subtree (children_of a) c) a b"
    and ac: "\<And>c a b. c \<in> set cs \<Longrightarrow> body c a = Some b \<Longrightarrow> acyclic_from (children_of a) c"
  shows "\<forall>c\<in>set cs. acyclic_from (children_of s) c"
  using assms
proof (induction cs arbitrary: s)
  case Nil
  then show ?case by simp
next
  case (Cons c cs)
  from Cons.prems(1) obtain s1 where 1: "body c s = Some s1" and 2: "for_each body cs s1 = Some s'"
    by (auto split: option.splits)
  let ?A = "subtree (children_of s) c"
  have c: "acyclic_from (children_of s) c"
    using Cons.prems(3)[of c s s1] 1 by simp
  have r1: "erased ?A s s1"
    using Cons.prems(2)[of c s s1] 1 by simp
  have "\<forall>c'\<in>set cs. acyclic_from (children_of s1) c'"
  proof (rule Cons.IH[OF 2])
    fix c' a b assume "c' \<in> set cs" "body c' a = Some b"
    then show "erased (subtree (children_of a) c') a b" "acyclic_from (children_of a) c'"
      using Cons.prems(2)[of c' a b] Cons.prems(3)[of c' a b] by simp_all
  qed
  moreover have "acyclic_from (children_of s) y" if "acyclic_from (children_of s1) y" for y
    using that
  proof (rule acyclic_from_after_erase)
    show "children_of s1 x = (if x \<in> ?A then [] else children_of s x)" for x
      using r1 by (rule erased_children_of)
  next
    fix x assume "x \<in> ?A"
    then show "acyclic_from (children_of s) x" using c by (rule acyclic_from_subtree)
  qed
  ultimately show ?case using c by simp
qed

lemma destroy_recursive_acyclic:
  "destroy_recursive n e s = Some s' \<Longrightarrow> acyclic_from (children_of s) e"
proof (induction n arbitrary: e s s')
  case 0
  then show ?case by simp
next
  case (Suc n)
  let ?s0 = "s\<lparr>scene_graph_transforms :=
               index_insert (scene_graph_transforms s) e scene_graph_component_default\<rparr>"
  from Suc.prems obtain s1 where
    loop: "for_each (destroy_recursive n) (children_of s e) ?s0 = Some s1"
    by (auto simp only: destroy_recursive_Suc split: option.splits)
  have "\<forall>c\<in>set (children_of s e). acyclic_from (children_of ?s0) c"
    using loop by (rule for_each_destroy_acyclic) (auto intro: destroy_recursive_erased Suc.IH)
  then show ?case
    by (auto intro: acyclic_from.intros)
qed

text \<open>
  When the loop of a returning call has finished, the children and all their descendants
  are gone from both tables and the record of the node itself is still in place.
\<close>

lemma destroy_recursive_children_first:
  assumes "destroy_recursive (Suc n) x a = Some b"
  shows "\<exists>m. for_each (destroy_recursive n) (children_of a x)
                (a\<lparr>scene_graph_transforms :=
                     index_insert (scene_graph_transforms a) x scene_graph_component_default\<rparr>)
              = Some m
           \<and> (\<forall>c\<in>set (children_of a x). \<forall>d\<in>subtree (children_of a) c.
                  scene_graph_transforms m d = None \<and> world_transforms m d = None)
           \<and> scene_graph_transforms m x = Some (node_of (scene_graph_transforms a) x)
           \<and> b = m\<lparr>world_transforms := (world_transforms m)(x := None),
                    scene_graph_transforms := (scene_graph_transforms m)(x := None)\<rparr>"
proof -
  let ?s0 = "a\<lparr>scene_graph_transforms :=
               index_insert (scene_graph_transforms a) x scene_graph_component_default\<rparr>"
  let ?B = "\<Union>c\<in>set (children_of a x). subtree (children_of a) c"
  from assms obtain m where
    loop: "for_each (destroy_recursive n) (children_of a x) ?s0 = Some m" and
    b: "b = m\<lparr>world_transforms := (world_transforms m)(x := None),
               scene_graph_transforms := (scene_graph_transforms m)(x := None)\<rparr>"
    by (auto simp only: destroy_recursive_Suc split: option.splits)
  have "erased (\<Union>c\<in>set (children_of a x). subtree (children_of ?s0) c) ?s0 m"
    using loop by (rule for_each_erased) (rule destroy_recursive_erased)
  then have er: "erased ?B ?s0 m" by (simp only: children_of_index_insert)
  have gone: "scene_graph_transforms m d = None \<and> world_transforms m d = None" if "d \<in> ?B" for d
    using er that by (rule erased_in)
  have "acyclic_from (children_of a) x"
    using assms by (rule destroy_recursive_acyclic)
  then have "x \<notin> ?B"
    by (auto dest: acyclic_from_not_in_child_subtree)
  with er have "scene_graph_transforms m x = scene_graph_transforms ?s0 x"
    by (simp add: erased_out)
  then have here: "scene_graph_transforms m x = Some (node_of (scene_graph_transforms a) x)"
    by (simp add: node_of_def)
  from loop gone here b show ?thesis by blast
qed

lemma destroy_deterministic:
  assumes "destroy n e s = Some a" and "destroy m e s = Some b"
  shows "a = b"
  using assms destroy_recursive_deterministic[of n e s _ m]
  unfolding destroy_cases
  by (auto split: if_splits option.splits)

text \<open>
  C3, for a valid entity.  In a reachable state, \<open>destroy\<close> on an entity \<open>e\<close> other
  than the invalid entity that has a scene-graph record returns normally.  It erases exactly \<open>e\<close> and its transitive descendants from both
  tables, so afterwards \<open>get_local_transform\<close> and \<open>get_world_transform\<close> return none and
  \<open>has_transform\<close> is false for each of them.  In every returning call of
  \<open>destroy_recursive\<close>, when the loop over the children has finished the children and all
  their descendants are already erased while the node itself still has its record; the
  node is erased last.
\<close>

theorem destroy_removes_subtree:
  fixes s a :: "('p::{one,times}, 'v::zero) transform_system"
  assumes "reachable s" and "e \<noteq> kInvalidEntity" and "has_transform s e"
  shows
    "(\<exists>fuel s'. destroy fuel e s = Some (Inr (), s'))
     \<and> (\<forall>fuel r s'. destroy fuel e s = Some (r, s') \<longrightarrow>
           r = Inr () \<and> erased (subtree (children_of s) e) s s'
           \<and> (\<forall>d\<in>subtree (children_of s) e.
                 get_local_transform s' d = None \<and> get_world_transform s' d = None
                 \<and> \<not> has_transform s' d))
     \<and> (\<forall>n x b. destroy_recursive (Suc n) x a = Some b \<longrightarrow>
           (\<exists>m. for_each (destroy_recursive n) (children_of a x)
                   (a\<lparr>scene_graph_transforms :=
                        index_insert (scene_graph_transforms a) x scene_graph_component_default\<rparr>)
                 = Some m
              \<and> (\<forall>c\<in>set (children_of a x). \<forall>d\<in>subtree (children_of a) c.
                     scene_graph_transforms m d = None \<and> world_transforms m d = None)
              \<and> scene_graph_transforms m x = Some (node_of (scene_graph_transforms a) x)
              \<and> b = m\<lparr>world_transforms := (world_transforms m)(x := None),
                       scene_graph_transforms := (scene_graph_transforms m)(x := None)\<rparr>))"
proof (intro conjI allI impI)
  have "acyclic_from (children_of s) e"
    using assms(1) by (rule reachable_acyclic)
  then obtain fuel s' where "destroy_recursive fuel e s = Some s'"
    using destroy_recursive_returns[of "children_of s" e s] by auto
  then have "destroy fuel e s = Some (Inr (), s')"
    using assms(2,3) by (simp add: destroy_cases)
  then show "\<exists>fuel s'. destroy fuel e s = Some (Inr (), s')" by blast
next
  fix fuel r s'
  assume ret: "destroy fuel e s = Some (r, s')"
  with assms(2,3) have r: "r = Inr ()" and rec: "destroy_recursive fuel e s = Some s'"
    by (auto simp: destroy_cases split: option.splits)
  from rec have er: "erased (subtree (children_of s) e) s s'"
    by (rule destroy_recursive_erased)
  show "r = Inr ()" by (rule r)
  show "erased (subtree (children_of s) e) s s'" by (rule er)
  show "\<forall>d\<in>subtree (children_of s) e.
          get_local_transform s' d = None \<and> get_world_transform s' d = None
          \<and> \<not> has_transform s' d"
    using erased_in[OF er]
    by (simp add: get_local_transform_def get_world_transform_def has_transform_def)
next
  fix n x b
  assume "destroy_recursive (Suc n) x a = Some b"
  then show "\<exists>m. for_each (destroy_recursive n) (children_of a x)
                   (a\<lparr>scene_graph_transforms :=
                        index_insert (scene_graph_transforms a) x scene_graph_component_default\<rparr>)
                 = Some m
              \<and> (\<forall>c\<in>set (children_of a x). \<forall>d\<in>subtree (children_of a) c.
                     scene_graph_transforms m d = None \<and> world_transforms m d = None)
              \<and> scene_graph_transforms m x = Some (node_of (scene_graph_transforms a) x)
              \<and> b = m\<lparr>world_transforms := (world_transforms m)(x := None),
                       scene_graph_transforms := (scene_graph_transforms m)(x := None)\<rparr>"
    by (rule destroy_recursive_children_first)
qed

theorem destroy_removes_subtree_witness:
  "reachable scene_linked \<and> (1::entity) \<noteq> kInvalidEntity \<and> has_transform scene_linked 1
   \<and> (\<exists>fuel s'. destroy fuel 1 scene_linked = Some (Inr (), s')
         \<and> get_local_transform s' 1 = None \<and> get_local_transform s' 2 = None
         \<and> get_local_transform s' 3 = None \<and> get_world_transform s' 2 = None
         \<and> \<not> has_transform s' 3)"
proof -
  have pre: "(1::entity) \<noteq> kInvalidEntity" "has_transform scene_linked 1"
    by (simp_all add: kInvalidEntity_def has_transform_def scene_linked_def)
  note main = destroy_removes_subtree[OF reachable_scene_linked pre, of scene_linked]
  from main obtain fuel s' where d: "destroy fuel 1 scene_linked = Some (Inr (), s')" by blast
  have ch: "children_of scene_linked 1 = [2, 3]"
    by (simp add: children_of_def scene_linked_def)
  have 1: "1 \<in> subtree (children_of scene_linked) 1" by (rule subtree.subtree_root)
  then have "2 \<in> subtree (children_of scene_linked) 1" "3 \<in> subtree (children_of scene_linked) 1"
    by (rule subtree.subtree_child, simp add: ch)+
  with 1 main d have "get_local_transform s' 1 = None \<and> get_local_transform s' 2 = None
         \<and> get_local_transform s' 3 = None \<and> get_world_transform s' 2 = None
         \<and> \<not> has_transform s' 3"
    by blast
  with reachable_scene_linked pre d show ?thesis by blast
qed

text \<open>
  C3 does not extend to the invalid entity: \<open>create\<close> accepts it, so it has both records
  in a reachable state, and \<open>destroy\<close> on it throws and leaves both records in place.
\<close>

theorem destroy_keeps_invalid_entity:
  "reachable scene_invalid_entity
   \<and> has_transform scene_invalid_entity kInvalidEntity
   \<and> destroy 1 kInvalidEntity scene_invalid_entity
       = Some (Inl (Invalid_argument ''parent was invalid''), scene_invalid_entity)
   \<and> kInvalidEntity \<in> subtree (children_of scene_invalid_entity) kInvalidEntity
   \<and> scene_graph_transforms scene_invalid_entity kInvalidEntity \<noteq> None
   \<and> world_transforms scene_invalid_entity kInvalidEntity \<noteq> None"
proof -
  have "transform_system_create 1 0 5 1 (transform_system_init :: (int, int) transform_system)
          = Some (True, scene_invalid_entity)"
    by (simp add: transform_system_create_result transform_system_init_def kInvalidEntity_def
        scene_invalid_entity_def)
  with reachable_init have "reachable scene_invalid_entity"
    by (rule reachable_create)
  moreover have "destroy 1 kInvalidEntity scene_invalid_entity
       = Some (Inl (Invalid_argument ''parent was invalid''), scene_invalid_entity)"
    by (simp add: destroy_cases)
  moreover have "kInvalidEntity \<in> subtree (children_of scene_invalid_entity) kInvalidEntity"
    by (rule subtree.subtree_root)
  ultimately show ?thesis
    by (simp add: has_transform_def scene_invalid_entity_def kInvalidEntity_def)
qed

section \<open>\<open>remove_parent\<close>\<close>

lemma remove_parent_deterministic:
  assumes "remove_parent n c s = Some a" and "remove_parent m c s = Some b"
  shows "a = b"
  using assms recalculate_world_transform_deterministic[of n c "remove_parent_unlink c s" a m b]
  unfolding remove_parent_cases
  by (auto split: if_splits)

lemma remove_parent_unlink_child:
  assumes "scene_graph_transforms s c = Some nc"
  shows "\<exists>nc'. scene_graph_transforms (remove_parent_unlink c s) c = Some nc'
           \<and> parent nc' = kInvalidEntity \<and> local_pose nc' = local_pose nc"
  using assms by (cases "parent nc = c") (simp_all add: remove_parent_unlink_sg)

lemma remove_parent_unlink_parent_children:
  assumes "scene_graph_transforms s c = Some nc"
  shows "children_of (remove_parent_unlink c s) (parent nc)
           = removeAll c (children_of s (parent nc))"
proof (cases "parent nc = c")
  case True
  then show ?thesis
    unfolding children_of_def remove_parent_unlink_sg[OF assms] using assms by simp
next
  case False
  then show ?thesis
    unfolding children_of_def remove_parent_unlink_sg[OF assms]
    by (simp add: children_of_node_of[unfolded children_of_def, symmetric])
qed

text \<open>
  C5.  In a reachable state, \<open>remove_parent\<close> on an entity that has a parent returns.
  Afterwards the former parent's children list is the old list with every occurrence
  of the child removed, the child's parent reference is the invalid entity, so
  \<open>get_parent\<close> returns it, the child's local pose is unchanged, and the child's world
  pose is its local pose.
\<close>

theorem remove_parent_detaches:
  fixes s :: "('p::{one,times}, 'v::zero) transform_system"
  assumes "reachable s" and "scene_graph_transforms s child = Some nc"
    and "parent nc \<noteq> kInvalidEntity"
  shows "\<exists>fuel s'. remove_parent fuel child s = Some s'
           \<and> (\<forall>fuel' r. remove_parent fuel' child s = Some r \<longrightarrow> r = s')
           \<and> children_of s' (parent nc) = removeAll child (children_of s (parent nc))
           \<and> child \<notin> set (children_of s' (parent nc))
           \<and> (\<exists>nc'. scene_graph_transforms s' child = Some nc' \<and> parent nc' = kInvalidEntity
                  \<and> local_pose nc' = local_pose nc)
           \<and> get_parent s' child = kInvalidEntity
           \<and> (\<exists>w. world_transforms s' child = Some w \<and> world_pose w = local_pose nc)"
proof -
  let ?s2 = "remove_parent_unlink child s"
  have cases: "remove_parent fuel child s = recalculate_world_transform fuel child ?s2" for fuel
    using assms(2,3) by (simp add: remove_parent_cases node_of_def)
  have "acyclic_from (children_of s) child"
    using assms(1) by (rule reachable_acyclic)
  then have "acyclic_from (children_of ?s2) child"
    by (rule acyclic_from_antimono) (rule children_of_remove_parent_unlink[OF assms(2)])
  then obtain fuel s' where rec: "recalculate_world_transform fuel child ?s2 = Some s'"
    using recalculate_world_transform_returns by blast
  then have ret: "remove_parent fuel child s = Some s'" by (simp add: cases)
  have det: "\<forall>fuel' r. remove_parent fuel' child s = Some r \<longrightarrow> r = s'"
    using ret by (auto dest: remove_parent_deterministic)
  have post: "recalculated (subtree (children_of ?s2) child) ?s2 s'"
    using rec by (rule recalculate_world_transform_recalculated)
  then have ext: "default_extends (scene_graph_transforms ?s2) (scene_graph_transforms s')"
    by (simp add: recalculated_def)
  have "children_of s' = children_of ?s2"
    using rec by (rule recalculate_world_transform_children_of)
  then have ch: "children_of s' (parent nc) = removeAll child (children_of s (parent nc))"
    by (simp add: remove_parent_unlink_parent_children[OF assms(2)])
  then have gone: "child \<notin> set (children_of s' (parent nc))" by simp
  from remove_parent_unlink_child[OF assms(2)] obtain nc' where
    nc': "scene_graph_transforms ?s2 child = Some nc'" "parent nc' = kInvalidEntity"
    "local_pose nc' = local_pose nc" by blast
  from ext nc'(1) have c': "scene_graph_transforms s' child = Some nc'"
    by (rule default_extends_Some)
  have gp: "get_parent s' child = kInvalidEntity"
    using c' nc'(2) by (simp add: get_parent_def)
  from post have "world_pose_rule s' child"
    by (simp add: recalculated_def subtree.subtree_root)
  with c' nc'(2,3) have w: "\<exists>w. world_transforms s' child = Some w \<and> world_pose w = local_pose nc"
    by (auto simp: world_pose_rule_def)
  from ret det ch gone c' nc'(2,3) gp w show ?thesis by blast
qed

theorem remove_parent_detaches_witness:
  "reachable scene_linked
   \<and> (\<exists>fuel s'. remove_parent fuel 2 scene_linked = Some s' \<and> children_of s' 1 = [3]
         \<and> get_parent s' 2 = kInvalidEntity
         \<and> (\<exists>w. world_transforms s' 2 = Some w \<and> world_pose w = 3))"
proof -
  let ?nc = "\<lparr>get_entity = 2, local_pose = 3::int, local_scale = 1::int, parent = 1,
              children = []\<rparr>"
  have n: "scene_graph_transforms scene_linked 2 = Some ?nc"
    by (simp add: scene_linked_def)
  have p: "parent ?nc \<noteq> kInvalidEntity"
    by (simp add: kInvalidEntity_def)
  have ch: "children_of scene_linked 1 = [2, 3]"
    by (simp add: children_of_def scene_linked_def)
  from remove_parent_detaches[OF reachable_scene_linked n p] ch reachable_scene_linked
  show ?thesis by auto
qed

section \<open>\<open>add_child\<close> on valid entities\<close>

lemma add_child_result:
  assumes ret: "add_child fuel p c s = Some (Inr True, s')"
  shows "children_of s' p = children_of s p @ [c] \<and> get_parent s' c = p"
proof -
  let ?s2 = "add_child_link p c s"
  from add_child_returns[OF ret] have p0: "p \<noteq> kInvalidEntity" and c0: "c \<noteq> kInvalidEntity"
    and hp: "has_transform s p" and hc: "has_transform s c"
    and rec: "recalculate_world_transform fuel p ?s2 = Some s'"
    by auto
  from hp hc obtain np nc where np: "scene_graph_transforms s p = Some np"
    and nc: "scene_graph_transforms s c = Some nc"
    by (auto simp: has_transform_def)
  have "children_of s' = children_of ?s2"
    using rec by (rule recalculate_world_transform_children_of)
  then have ch: "children_of s' p = children_of s p @ [c]"
    using hp hc by (simp add: children_of_add_child_link)
  have ext: "default_extends (scene_graph_transforms ?s2) (scene_graph_transforms s')"
    using recalculate_world_transform_recalculated[OF rec] by (simp add: recalculated_def)
  obtain nc2 where nc2: "scene_graph_transforms ?s2 c = Some nc2" "parent nc2 = p"
    using np nc by (cases "c = p") (auto simp: add_child_link_sg)
  from ext nc2(1) have "scene_graph_transforms s' c = Some nc2"
    by (rule default_extends_Some)
  with nc2(2) p0 c0 have "get_parent s' c = p"
    by (simp add: get_parent_def)
  with ch show ?thesis by simp
qed

lemma add_child_cycle_diverges:
  assumes hp: "has_transform s p" and hc: "has_transform s c"
    and cyc: "p \<in> subtree (children_of s) c"
  shows "add_child fuel p c s \<noteq> Some (Inr True, s')"
proof
  let ?s2 = "add_child_link p c s"
  assume "add_child fuel p c s = Some (Inr True, s')"
  from add_child_returns[OF this]
  have "recalculate_world_transform fuel p ?s2 = Some s'" by auto
  then have ac: "acyclic_from (children_of ?s2) p"
    by (rule recalculate_world_transform_acyclic)
  have c: "c \<in> set (children_of ?s2 p)"
    using hp hc by (simp add: children_of_add_child_link)
  have "subtree (children_of s) c \<subseteq> subtree (children_of ?s2) c"
    by (rule subtree_mono) (use hp hc in \<open>auto simp: children_of_add_child_link\<close>)
  with cyc have "p \<in> subtree (children_of ?s2) c" by blast
  with acyclic_from_not_in_child_subtree[OF ac c] show False by simp
qed

text \<open>
  C4, with the two unguarded cases set apart.  For valid entities \<open>parent\<close> and \<open>child\<close> that both have a scene-graph
  record: \<open>add_child\<close> neither throws nor returns \<open>false\<close>; in a reachable state it
  returns unless \<open>parent\<close> is \<open>child\<close> or one of its descendants, in which case it does not
  return at all; whenever it returns, \<open>child\<close> has been appended at the end of the
  parent's children list, so that siblings keep insertion order, and \<open>get_parent\<close> of
  the child is \<open>parent\<close>; the child then occurs exactly once in the list if it was not in
  the list before the call.
\<close>

theorem add_child_appends:
  fixes s :: "('p::{one,times}, 'v::zero) transform_system"
  assumes "parent_e \<noteq> kInvalidEntity" and "child \<noteq> kInvalidEntity"
    and "has_transform s parent_e" and "has_transform s child"
  shows
    "(\<forall>fuel r s'. add_child fuel parent_e child s = Some (r, s') \<longrightarrow>
         r = Inr True
         \<and> children_of s' parent_e = children_of s parent_e @ [child]
         \<and> get_parent s' child = parent_e
         \<and> (child \<notin> set (children_of s parent_e)
              \<longrightarrow> count_list (children_of s' parent_e) child = 1))
     \<and> (reachable s \<and> parent_e \<notin> subtree (children_of s) child
          \<longrightarrow> (\<exists>fuel s'. add_child fuel parent_e child s = Some (Inr True, s')))
     \<and> (parent_e \<in> subtree (children_of s) child
          \<longrightarrow> (\<forall>fuel. add_child fuel parent_e child s = None))"
proof (intro conjI allI impI)
  fix fuel r s'
  assume ret: "add_child fuel parent_e child s = Some (r, s')"
  with assms show r: "r = Inr True"
    by (auto simp: add_child_cases split: option.splits)
  with ret have "add_child fuel parent_e child s = Some (Inr True, s')" by simp
  from add_child_result[OF this]
  show ch: "children_of s' parent_e = children_of s parent_e @ [child]"
    and "get_parent s' child = parent_e" by simp_all
  assume "child \<notin> set (children_of s parent_e)"
  then show "count_list (children_of s' parent_e) child = 1"
    by (simp add: ch)
next
  assume "reachable s \<and> parent_e \<notin> subtree (children_of s) child"
  with assms show "\<exists>fuel s'. add_child fuel parent_e child s = Some (Inr True, s')"
    by (blast intro: add_child_returns_ok)
next
  fix fuel
  assume cyc: "parent_e \<in> subtree (children_of s) child"
  show "add_child fuel parent_e child s = None"
  proof (cases "add_child fuel parent_e child s")
    case None
    then show ?thesis .
  next
    case (Some a)
    with assms have "\<exists>s'. add_child fuel parent_e child s = Some (Inr True, s')"
      by (auto simp: add_child_cases split: option.splits)
    with add_child_cycle_diverges[OF assms(3,4) cyc] show ?thesis by blast
  qed
qed

theorem add_child_appends_witness:
  "reachable scene_created
   \<and> (\<exists>fuel s'. add_child fuel 1 2 scene_created = Some (Inr True, s')
         \<and> children_of s' 1 = [2] \<and> get_parent s' 2 = 1 \<and> count_list (children_of s' 1) 2 = 1)
   \<and> (\<forall>fuel. add_child fuel 2 2 scene_created = None)"
proof -
  have pre: "(1::entity) \<noteq> kInvalidEntity" "(2::entity) \<noteq> kInvalidEntity"
    "has_transform scene_created 1" "has_transform scene_created 2"
    by (simp_all add: kInvalidEntity_def has_transform_def scene_created_def)
  have ch: "children_of scene_created 1 = []"
    by (simp add: children_of_def scene_created_def)
  have "subtree (children_of scene_created) 2 = {2}"
    by (subst subtree_unfold) (simp add: children_of_def scene_created_def)
  then have np: "1 \<notin> subtree (children_of scene_created) 2"
    and cyc: "2 \<in> subtree (children_of scene_created) 2" by simp_all
  note main = add_child_appends[OF pre(1,2,3,4)] add_child_appends[OF pre(2,2,4,4)]
  from main(1) reachable_scene_created np
  obtain fuel s' where a: "add_child fuel 1 2 scene_created = Some (Inr True, s')" by blast
  with main(1) ch have "children_of s' 1 = [2] \<and> get_parent s' 2 = 1
      \<and> count_list (children_of s' 1) 2 = 1"
    by (metis append_Nil empty_iff list.set(1))
  moreover from main(2) cyc have "\<forall>fuel. add_child fuel 2 2 scene_created = None" by blast
  ultimately show ?thesis using reachable_scene_created a by blast
qed

text \<open>
  C4 does not hold when the child is already in the parent's list: in the example scene
  a second \<open>add_child(1, 2)\<close> returns \<open>true\<close> and lists entity 2 twice.
\<close>

theorem add_child_lists_child_twice:
  "reachable scene_linked \<and> (1::entity) \<noteq> kInvalidEntity \<and> (2::entity) \<noteq> kInvalidEntity
   \<and> has_transform scene_linked 1 \<and> has_transform scene_linked 2
   \<and> add_child 2 1 2 scene_linked = Some (Inr True, scene_linked_twice)
   \<and> children_of scene_linked_twice 1 = [2, 3, 2]
   \<and> count_list (children_of scene_linked_twice 1) 2 = 2"
  using linked_twice_step reachable_scene_linked
  by (simp add: kInvalidEntity_def has_transform_def scene_linked_def children_of_def
      scene_linked_twice_def)

section \<open>Consistency of the links under the calling discipline\<close>

lemma links_closed_zero: "links_closed s \<Longrightarrow> scene_graph_transforms s kInvalidEntity = None"
  by (simp add: links_closed_def)

lemma links_closed_child:
  "links_closed s \<Longrightarrow> scene_graph_transforms s x = Some n \<Longrightarrow> c \<in> set (children n)
     \<Longrightarrow> scene_graph_transforms s c \<noteq> None"
  unfolding links_closed_def by blast

lemma links_closed_parent:
  "links_closed s \<Longrightarrow> scene_graph_transforms s x = Some n \<Longrightarrow> parent n \<noteq> kInvalidEntity
     \<Longrightarrow> scene_graph_transforms s (parent n) \<noteq> None"
  unfolding links_closed_def by blast

lemma links_closedI:
  assumes "scene_graph_transforms s kInvalidEntity = None"
    and "\<And>x n c. scene_graph_transforms s x = Some n \<Longrightarrow> c \<in> set (children n)
           \<Longrightarrow> scene_graph_transforms s c \<noteq> None"
    and "\<And>x n. scene_graph_transforms s x = Some n \<Longrightarrow> parent n \<noteq> kInvalidEntity
           \<Longrightarrow> scene_graph_transforms s (parent n) \<noteq> None"
  shows "links_closed s"
  unfolding links_closed_def using assms by blast

lemma links_consistentD:
  "links_consistent s \<Longrightarrow> scene_graph_transforms s c = Some nc
     \<Longrightarrow> scene_graph_transforms s p = Some np
     \<Longrightarrow> (c \<in> set (children np)) = (parent nc = p)"
  unfolding links_consistent_def by blast

lemma links_consistentI:
  assumes "\<And>c p nc np. scene_graph_transforms s c = Some nc
             \<Longrightarrow> scene_graph_transforms s p = Some np
             \<Longrightarrow> (c \<in> set (children np)) = (parent nc = p)"
  shows "links_consistent s"
  unfolding links_consistent_def using assms by blast

lemma links_closed_subtree:
  assumes cl: "links_closed s" and e: "has_transform s e" and x: "x \<in> subtree (children_of s) e"
  shows "has_transform s x"
  using x
proof (induction rule: subtree.induct)
  case subtree_root
  then show ?case by (rule e)
next
  case (subtree_child x c)
  then obtain n where "scene_graph_transforms s x = Some n"
    by (auto simp: has_transform_def)
  with cl subtree_child.hyps(2) show ?case
    by (auto simp: links_closed_def has_transform_def children_of_def)
qed

lemma recalculate_world_transform_closed:
  assumes cl: "links_closed s" and e: "has_transform s e"
    and rec: "recalculate_world_transform n e s = Some s'"
  shows "scene_graph_transforms s' = scene_graph_transforms s"
proof (rule ext)
  fix x
  let ?t = "scene_graph_transforms s" and ?t' = "scene_graph_transforms s'"
  let ?S = "subtree (children_of s) e"
  have post: "recalculated ?S s s'"
    using rec by (rule recalculate_world_transform_recalculated)
  show "?t' x = ?t x"
  proof (rule ccontr)
    assume ne: "?t' x \<noteq> ?t x"
    with post have none: "?t x = None"
      by (auto simp: recalculated_def default_extends_def)
    from post ne have "x \<in> ?S \<or> (\<exists>y\<in>?S. parent (node_of ?t y) = x \<and> x \<noteq> kInvalidEntity)"
      by (simp add: recalculated_def)
    then show False
    proof
      assume "x \<in> ?S"
      with cl e have "has_transform s x" by (rule links_closed_subtree)
      with none show False by (simp add: has_transform_def)
    next
      assume "\<exists>y\<in>?S. parent (node_of ?t y) = x \<and> x \<noteq> kInvalidEntity"
      then obtain y where y: "y \<in> ?S" and p: "parent (node_of ?t y) = x" and x0: "x \<noteq> kInvalidEntity"
        by blast
      from cl e y have "has_transform s y" by (rule links_closed_subtree)
      then obtain n where n: "?t y = Some n" by (auto simp: has_transform_def)
      with p have "parent n = x" by (simp add: node_of_def)
      with cl n x0 have "?t x \<noteq> None" by (auto simp: links_closed_def)
      with none show False by simp
    qed
  qed
qed

lemma links_sg_cong:
  assumes "scene_graph_transforms s' = scene_graph_transforms s"
  shows "links_closed s' = links_closed s" and "links_consistent s' = links_consistent s"
  by (simp_all add: links_closed_def links_consistent_def assms)

lemma links_create:
  assumes cl: "links_closed s" and co: "links_consistent s"
    and e0: "e \<noteq> kInvalidEntity" and ne: "\<not> has_transform s e"
    and ret: "transform_system_create fuel e lp ls s = Some (r, s')"
  shows "links_closed s' \<and> links_consistent s'"
proof -
  let ?t = "scene_graph_transforms s"
  let ?n = "\<lparr>get_entity = e, local_pose = lp, local_scale = ls, parent = kInvalidEntity,
             children = []\<rparr>"
  from ret have t': "scene_graph_transforms s' = ?t(e \<mapsto> ?n)"
    by (auto simp: transform_system_create_result split: if_splits)
  from ne have none: "?t e = None" by (simp add: has_transform_def)
  have notchild: "e \<notin> set (children n)" if "?t x = Some n" for x n
    using links_closed_child[OF cl that] none by blast
  have notparent: "parent n \<noteq> e" if "?t x = Some n" for x n
    using links_closed_parent[OF cl that] none e0 by auto
  have "links_closed s'"
  proof (rule links_closedI)
    show "scene_graph_transforms s' kInvalidEntity = None"
      using links_closed_zero[OF cl] e0 by (simp add: t')
  next
    fix x n c assume "scene_graph_transforms s' x = Some n" "c \<in> set (children n)"
    then show "scene_graph_transforms s' c \<noteq> None"
      using links_closed_child[OF cl, of x n c] by (auto simp: t' split: if_splits)
  next
    fix x n assume "scene_graph_transforms s' x = Some n" "parent n \<noteq> kInvalidEntity"
    then show "scene_graph_transforms s' (parent n) \<noteq> None"
      using links_closed_parent[OF cl, of x n] by (auto simp: t' split: if_splits)
  qed
  moreover have "links_consistent s'"
  proof (rule links_consistentI)
    fix c p nc np
    assume "scene_graph_transforms s' c = Some nc" "scene_graph_transforms s' p = Some np"
    then show "(c \<in> set (children np)) = (parent nc = p)"
      using links_consistentD[OF co, of c nc p np] notchild[of p np] notparent[of c nc] e0
        links_closed_zero[OF cl]
      by (auto simp: t' split: if_splits)
  qed
  ultimately show ?thesis by simp
qed

lemma get_parent_invalid:
  assumes "get_parent s c = kInvalidEntity" and "c \<noteq> kInvalidEntity"
    and "scene_graph_transforms s c = Some nc"
  shows "parent nc = kInvalidEntity"
  using assms by (auto simp: get_parent_def split: if_splits)

lemma links_add_child:
  assumes cl: "links_closed s" and co: "links_consistent s"
    and gp: "get_parent s c = kInvalidEntity"
    and ret: "add_child fuel p c s = Some (r, s')"
  shows "links_closed s' \<and> links_consistent s'"
proof -
  from add_child_returns[OF ret] show ?thesis
  proof
    assume "\<exists>msg. r = Inl (Invalid_argument msg) \<and> s' = s"
    then show ?thesis using cl co by auto
  next
    assume a: "r = Inr True \<and> p \<noteq> kInvalidEntity \<and> c \<noteq> kInvalidEntity \<and> has_transform s p \<and>
      has_transform s c \<and> recalculate_world_transform fuel p (add_child_link p c s) = Some s'"
    let ?t = "scene_graph_transforms s"
    let ?s2 = "add_child_link p c s"
    let ?t2 = "scene_graph_transforms ?s2"
    from a obtain np nc where np: "?t p = Some np" and nc: "?t c = Some nc"
      by (auto simp: has_transform_def)
    from a have p0: "p \<noteq> kInvalidEntity" and c0: "c \<noteq> kInvalidEntity" by simp_all
    have root: "parent nc = kInvalidEntity"
      using gp c0 nc by (rule get_parent_invalid)
    from a have rec: "recalculate_world_transform fuel p ?s2 = Some s'" by simp
    have "acyclic_from (children_of ?s2) p"
      using rec by (rule recalculate_world_transform_acyclic)
    moreover have "c \<in> set (children_of ?s2 p)"
      using a by (simp add: children_of_add_child_link)
    ultimately have cp: "c \<noteq> p"
      using acyclic_from_no_back_edge[OF _ subtree.subtree_root, of "children_of ?s2" p] by auto
    let ?np = "np\<lparr>children := children np @ [c]\<rparr>" and ?nc = "nc\<lparr>parent := p\<rparr>"
    have t2: "?t2 = ?t(p \<mapsto> ?np, c \<mapsto> ?nc)"
      using add_child_link_sg[OF np nc] cp by simp
    have t2p: "?t2 p = Some ?np" and t2c: "?t2 c = Some ?nc"
      and t2o: "\<And>x. x \<noteq> p \<Longrightarrow> x \<noteq> c \<Longrightarrow> ?t2 x = ?t x"
      using cp by (simp_all add: t2)
    have dom: "?t2 x \<noteq> None" if "?t x \<noteq> None" for x
      using that by (simp add: t2)
    have z: "?t kInvalidEntity = None" using cl by (rule links_closed_zero)
    have cl2: "links_closed ?s2"
    proof (rule links_closedI)
      show "?t2 kInvalidEntity = None"
        using z p0 c0 by (simp add: t2)
    next
      fix x n d assume x: "?t2 x = Some n" and d: "d \<in> set (children n)"
      have "?t d \<noteq> None"
      proof (cases "x = p")
        case True
        with x t2p have "n = ?np" by simp
        with d have "d \<in> set (children np) \<or> d = c" by auto
        then show ?thesis using links_closed_child[OF cl np] nc by auto
      next
        case False
        show ?thesis
        proof (cases "x = c")
          case True
          with x t2c have "n = ?nc" by simp
          with d have "d \<in> set (children nc)" by simp
          then show ?thesis using links_closed_child[OF cl nc] by simp
        next
          case xc: False
          with False x have "?t x = Some n" by (simp add: t2o)
          then show ?thesis using d by (rule links_closed_child[OF cl])
        qed
      qed
      then show "?t2 d \<noteq> None" by (rule dom)
    next
      fix x n assume x: "?t2 x = Some n" and q: "parent n \<noteq> kInvalidEntity"
      have "?t (parent n) \<noteq> None"
      proof (cases "x = p")
        case True
        with x t2p have "n = ?np" by simp
        with q have "parent n = parent np" "parent np \<noteq> kInvalidEntity" by simp_all
        then show ?thesis using links_closed_parent[OF cl np] by simp
      next
        case False
        show ?thesis
        proof (cases "x = c")
          case True
          with x t2c have "n = ?nc" by simp
          then show ?thesis using np by simp
        next
          case xc: False
          with False x have "?t x = Some n" by (simp add: t2o)
          then show ?thesis using q by (rule links_closed_parent[OF cl])
        qed
      qed
      then show "?t2 (parent n) \<noteq> None" by (rule dom)
    qed
    have notchild: "c \<notin> set (children n)" if "?t x = Some n" for x n
    proof -
      from z that have "x \<noteq> kInvalidEntity" by auto
      with links_consistentD[OF co nc that] root show ?thesis by simp
    qed
    have co2: "links_consistent ?s2"
    proof (rule links_consistentI)
      fix d q nd nq
      assume d: "?t2 d = Some nd" and q: "?t2 q = Some nq"
      have "\<exists>nd0. ?t d = Some nd0 \<and> (if d = c then parent nd = p else parent nd = parent nd0)"
      proof (cases "d = c")
        case True
        with d have "?t2 c = Some nd" by simp
        with t2c have "nd = ?nc" by simp
        then have "parent nd = p" by simp
        with True nc show ?thesis by simp
      next
        case dc: False
        show ?thesis
        proof (cases "d = p")
          case True
          with d have "?t2 p = Some nd" by simp
          with t2p have "nd = ?np" by simp
          then have "parent nd = parent np" by simp
          with True np dc show ?thesis by simp
        next
          case False
          with dc d t2o[of d] have "?t d = Some nd" by simp
          with dc show ?thesis by simp
        qed
      qed
      then obtain nd0 where nd0: "?t d = Some nd0"
        "if d = c then parent nd = p else parent nd = parent nd0" by blast
      have "\<exists>nq0. ?t q = Some nq0 \<and>
              (if q = p then children nq = children nq0 @ [c] else children nq = children nq0)"
      proof (cases "q = p")
        case True
        with q have "?t2 p = Some nq" by simp
        with t2p have "nq = ?np" by simp
        then have "children nq = children np @ [c]" by simp
        with True np show ?thesis by simp
      next
        case qp: False
        show ?thesis
        proof (cases "q = c")
          case True
          with q have "?t2 c = Some nq" by simp
          with t2c have "nq = ?nc" by simp
          then have "children nq = children nc" by simp
          with True nc qp show ?thesis by simp
        next
          case False
          with qp q t2o[of q] have "?t q = Some nq" by simp
          with qp show ?thesis by simp
        qed
      qed
      then obtain nq0 where nq0: "?t q = Some nq0"
        "if q = p then children nq = children nq0 @ [c] else children nq = children nq0" by blast
      have old: "(d \<in> set (children nq0)) = (parent nd0 = q)"
        using co nd0(1) nq0(1) by (rule links_consistentD)
      have q0: "q \<noteq> kInvalidEntity" using z nq0(1) by auto
      show "(d \<in> set (children nq)) = (parent nd = q)"
      proof (cases "d = c")
        case True
        with nd0(1) nc have "nd0 = nc" by simp
        with root q0 old have "d \<notin> set (children nq0)" by simp
        with True nd0(2) nq0(2) show ?thesis by (auto split: if_splits)
      next
        case False
        with nd0(2) old nq0(2) show ?thesis by (auto split: if_splits)
      qed
    qed
    have "has_transform ?s2 p"
      using np nc by (auto simp: has_transform_def t2)
    with cl2 have "scene_graph_transforms s' = ?t2"
      using rec by (rule recalculate_world_transform_closed)
    from links_sg_cong[OF this] cl2 co2 show ?thesis by simp
  qed
qed

lemma links_insert_default:
  assumes cl: "links_closed s" and co: "links_consistent s"
    and c0: "c \<noteq> kInvalidEntity" and none: "scene_graph_transforms s c = None"
    and t': "scene_graph_transforms s' = (scene_graph_transforms s)(c \<mapsto> scene_graph_component_default)"
  shows "links_closed s' \<and> links_consistent s'"
proof -
  let ?t = "scene_graph_transforms s" and ?t' = "scene_graph_transforms s'"
  have d: "children (scene_graph_component_default :: ('a, 'b) scene_graph_component) = []"
    "parent (scene_graph_component_default :: ('a, 'b) scene_graph_component) = kInvalidEntity"
    by (simp_all add: scene_graph_component_default_def scene_graph_component_of_def)
  have z: "?t kInvalidEntity = None" using cl by (rule links_closed_zero)
  have old: "?t x = Some n" if "?t' x = Some n" "x \<noteq> c" for x n
    using that by (simp add: t')
  have dom: "?t' x \<noteq> None" if "?t x \<noteq> None" for x
    using that by (simp add: t')
  have "links_closed s'"
  proof (rule links_closedI)
    show "?t' kInvalidEntity = None" using z c0 by (simp add: t')
  next
    fix x n e assume x: "?t' x = Some n" and e: "e \<in> set (children n)"
    have "x \<noteq> c" using x e d(1) by (auto simp: t')
    with x have "?t x = Some n" by (rule old)
    then have "?t e \<noteq> None" using e by (rule links_closed_child[OF cl])
    then show "?t' e \<noteq> None" by (rule dom)
  next
    fix x n assume x: "?t' x = Some n" and p: "parent n \<noteq> kInvalidEntity"
    have "x \<noteq> c" using x p d(2) by (auto simp: t')
    with x have "?t x = Some n" by (rule old)
    then have "?t (parent n) \<noteq> None" using p by (rule links_closed_parent[OF cl])
    then show "?t' (parent n) \<noteq> None" by (rule dom)
  qed
  moreover have "links_consistent s'"
  proof (rule links_consistentI)
    fix e p ne np
    assume e: "?t' e = Some ne" and p: "?t' p = Some np"
    have p0: "p \<noteq> kInvalidEntity" using p z c0 by (auto simp: t' split: if_splits)
    show "(e \<in> set (children np)) = (parent ne = p)"
    proof (cases "e = c")
      case True
      with e have ne: "ne = scene_graph_component_default" by (simp add: t')
      have "e \<notin> set (children np)"
      proof (cases "p = c")
        case True
        with p d(1) show ?thesis by (simp add: t')
      next
        case False
        with p have "?t p = Some np" by (rule old)
        from links_closed_child[OF cl this, of e] none True show ?thesis by auto
      qed
      with ne d(2) p0 show ?thesis by simp
    next
      case False
      with e have e': "?t e = Some ne" by (rule old)
      show ?thesis
      proof (cases "p = c")
        case True
        with p have "np = scene_graph_component_default" by (simp add: t')
        moreover have "parent ne \<noteq> c"
          using links_closed_parent[OF cl e'] none c0 by auto
        ultimately show ?thesis using True d(1) by simp
      next
        case False
        with p have "?t p = Some np" by (rule old)
        with co e' show ?thesis by (rule links_consistentD)
      qed
    qed
  qed
  ultimately show ?thesis by simp
qed

lemma links_unlink:
  assumes cl: "links_closed s" and co: "links_consistent s"
    and nc: "scene_graph_transforms s c = Some nc" and q: "parent nc \<noteq> kInvalidEntity"
  shows "links_closed (remove_parent_unlink c s) \<and> links_consistent (remove_parent_unlink c s)
           \<and> has_transform (remove_parent_unlink c s) c"
proof -
  let ?t = "scene_graph_transforms s"
  let ?s2 = "remove_parent_unlink c s"
  let ?t2 = "scene_graph_transforms ?s2"
  let ?q = "parent nc"
  from links_closed_parent[OF cl nc q] obtain nq where nq: "?t ?q = Some nq" by auto
  have z: "?t kInvalidEntity = None" using cl by (rule links_closed_zero)
  have t2: "?t2 = (if ?q = c
      then ?t(c \<mapsto> nc\<lparr>children := removeAll c (children nc), parent := kInvalidEntity\<rparr>)
      else ?t(?q \<mapsto> nq\<lparr>children := removeAll c (children nq)\<rparr>,
              c \<mapsto> nc\<lparr>parent := kInvalidEntity\<rparr>))"
    using remove_parent_unlink_sg[OF nc] nq by (simp add: node_of_def)
  have dom: "(?t2 x \<noteq> None) = (?t x \<noteq> None)" for x
    using nc nq by (simp add: t2)
  have old: "\<exists>n. ?t x = Some n
      \<and> set (children n2) = (if x = ?q then set (children n) - {c} else set (children n))
      \<and> parent n2 = (if x = c then kInvalidEntity else parent n)"
    if x: "?t2 x = Some n2" for x n2
  proof (cases "x = c")
    case True
    show ?thesis
    proof (cases "?q = c")
      case qc: True
      with x True t2 have "n2 = nc\<lparr>children := removeAll c (children nc), parent := kInvalidEntity\<rparr>"
        by simp
      then have "set (children n2) = set (children nc) - {c}" "parent n2 = kInvalidEntity"
        by simp_all
      with True qc nc show ?thesis by simp
    next
      case qc: False
      with x True t2 have "n2 = nc\<lparr>parent := kInvalidEntity\<rparr>" by simp
      then have "set (children n2) = set (children nc)" "parent n2 = kInvalidEntity"
        by simp_all
      with True qc nc show ?thesis by simp
    qed
  next
    case False
    show ?thesis
    proof (cases "x = ?q")
      case True
      with x False t2 have "n2 = nq\<lparr>children := removeAll c (children nq)\<rparr>" by simp
      then have "set (children n2) = set (children nq) - {c}" "parent n2 = parent nq"
        by simp_all
      with True False nq show ?thesis by simp
    next
      case xq: False
      with x False t2 have "?t x = Some n2" by (simp split: if_splits)
      with False xq show ?thesis by simp
    qed
  qed
  have cl2: "links_closed ?s2"
  proof (rule links_closedI)
    show "?t2 kInvalidEntity = None" using dom[of kInvalidEntity] z by blast
  next
    fix x n2 d assume x: "?t2 x = Some n2" and d: "d \<in> set (children n2)"
    from old[OF x] d obtain n where "?t x = Some n" "d \<in> set (children n)"
      by (auto split: if_splits)
    then have "?t d \<noteq> None" by (rule links_closed_child[OF cl])
    then show "?t2 d \<noteq> None" using dom[of d] by blast
  next
    fix x n2 assume x: "?t2 x = Some n2" and p: "parent n2 \<noteq> kInvalidEntity"
    from old[OF x] p obtain n where "?t x = Some n" "parent n2 = parent n"
      by (auto split: if_splits)
    with p have "?t (parent n2) \<noteq> None" using links_closed_parent[OF cl, of x n] by simp
    then show "?t2 (parent n2) \<noteq> None" using dom[of "parent n2"] by blast
  qed
  have co2: "links_consistent ?s2"
  proof (rule links_consistentI)
    fix d p nd2 np2
    assume d: "?t2 d = Some nd2" and p: "?t2 p = Some np2"
    from old[OF d] obtain nd where nd: "?t d = Some nd"
      "parent nd2 = (if d = c then kInvalidEntity else parent nd)" by blast
    from old[OF p] obtain np where np: "?t p = Some np"
      "set (children np2) = (if p = ?q then set (children np) - {c} else set (children np))"
      by blast
    have p0: "p \<noteq> kInvalidEntity" using np(1) z by auto
    have c: "(d \<in> set (children np)) = (parent nd = p)"
      using co nd(1) np(1) by (rule links_consistentD)
    show "(d \<in> set (children np2)) = (parent nd2 = p)"
    proof (cases "d = c")
      case True
      with nd(1) nc have "nd = nc" by simp
      with c True nd(2) np(2) p0 show ?thesis by (auto split: if_splits)
    next
      case False
      with c nd(2) np(2) show ?thesis by (auto split: if_splits)
    qed
  qed
  have "?t2 c \<noteq> None" using dom[of c] nc by blast
  then have "has_transform ?s2 c" by (simp add: has_transform_def)
  with cl2 co2 show ?thesis by simp
qed

lemma links_remove_parent:
  assumes cl: "links_closed s" and co: "links_consistent s"
    and c0: "c \<noteq> kInvalidEntity"
    and ret: "remove_parent fuel c s = Some s'"
  shows "links_closed s' \<and> links_consistent s'"
proof (cases "scene_graph_transforms s c")
  case None
  then have "parent (node_of (scene_graph_transforms s) c) = kInvalidEntity"
    by (simp add: node_of_def scene_graph_component_default_def scene_graph_component_of_def)
  with ret None have "scene_graph_transforms s' =
      (scene_graph_transforms s)(c \<mapsto> scene_graph_component_default)"
    by (auto simp: remove_parent_cases index_insert_def)
  with cl co c0 None show ?thesis by (rule links_insert_default)
next
  case (Some nc)
  show ?thesis
  proof (cases "parent nc = kInvalidEntity")
    case True
    with ret Some have "scene_graph_transforms s' = scene_graph_transforms s"
      by (auto simp: remove_parent_cases node_of_def)
    from links_sg_cong[OF this] cl co show ?thesis by simp
  next
    case False
    let ?s2 = "remove_parent_unlink c s"
    from links_unlink[OF cl co Some False]
    have cl2: "links_closed ?s2" and co2: "links_consistent ?s2" and h: "has_transform ?s2 c"
      by simp_all
    from ret Some False have "recalculate_world_transform fuel c ?s2 = Some s'"
      by (simp add: remove_parent_cases node_of_def)
    with cl2 h have "scene_graph_transforms s' = scene_graph_transforms ?s2"
      by (rule recalculate_world_transform_closed)
    from links_sg_cong[OF this] cl2 co2 show ?thesis by simp
  qed
qed

lemma links_destroy:
  assumes cl: "links_closed s" and co: "links_consistent s"
    and gp: "get_parent s e = kInvalidEntity"
    and ret: "destroy fuel e s = Some (r, s')"
  shows "links_closed s' \<and> links_consistent s'"
proof -
  from destroy_returns[OF ret] show ?thesis
  proof
    assume "\<exists>msg. r = Inl (Invalid_argument msg) \<and> s' = s"
    then show ?thesis using cl co by auto
  next
    assume a: "r = Inr () \<and> e \<noteq> kInvalidEntity \<and> has_transform s e \<and>
      destroy_recursive fuel e s = Some s'"
    let ?t = "scene_graph_transforms s" and ?t' = "scene_graph_transforms s'"
    let ?S = "subtree (children_of s) e"
    from a obtain ne where ne: "?t e = Some ne" by (auto simp: has_transform_def)
    from a have e0: "e \<noteq> kInvalidEntity" by simp
    have root: "parent ne = kInvalidEntity" using gp e0 ne by (rule get_parent_invalid)
    from a have "destroy_recursive fuel e s = Some s'" by simp
    then have er: "erased ?S s s'" by (rule destroy_recursive_erased)
    have out: "?t' x = ?t x" if "x \<notin> ?S" for x using erased_out[OF er that] by simp
    have inn: "?t' x = None" if "x \<in> ?S" for x using erased_in[OF er that] by simp
    have old: "?t x = Some n \<and> x \<notin> ?S" if "?t' x = Some n" for x n
      using that inn[of x] out[of x] by (cases "x \<in> ?S") auto
    have z: "?t kInvalidEntity = None" using cl by (rule links_closed_zero)
    have up: "\<exists>y ny. y \<in> ?S \<and> ?t y = Some ny \<and> d \<in> set (children ny)"
      if "d \<in> ?S" "d \<noteq> e" for d
      using that
    proof (cases rule: subtree.cases)
      case subtree_root
      with that show ?thesis by simp
    next
      case (subtree_child y)
      then show ?thesis
        by (cases "?t y") (auto simp: children_of_def)
    qed
    have down: "d \<in> ?S" if "y \<in> ?S" "?t y = Some ny" "d \<in> set (children ny)" for y ny d
      using that by (auto intro: subtree.subtree_child simp: children_of_def)
    have "links_closed s'"
    proof (rule links_closedI)
      show "?t' kInvalidEntity = None"
        using z inn[of kInvalidEntity] out[of kInvalidEntity] by (cases "kInvalidEntity \<in> ?S") auto
    next
      fix x n d assume "?t' x = Some n" and d: "d \<in> set (children n)"
      then have x: "?t x = Some n" "x \<notin> ?S" using old by blast+
      from links_closed_child[OF cl x(1) d] obtain nd where nd: "?t d = Some nd" by auto
      from x(1) z have x0: "x \<noteq> kInvalidEntity" by auto
      have pd: "parent nd = x" using links_consistentD[OF co nd x(1)] d by simp
      have "d \<notin> ?S"
      proof
        assume dS: "d \<in> ?S"
        show False
        proof (cases "d = e")
          case True
          with nd ne pd root x0 show False by simp
        next
          case False
          from up[OF dS False] obtain y ny where y: "y \<in> ?S" "?t y = Some ny"
            "d \<in> set (children ny)" by blast
          from links_consistentD[OF co nd y(2)] y(3) have "parent nd = y" by simp
          with pd y(1) x(2) show False by simp
        qed
      qed
      with nd show "?t' d \<noteq> None" by (simp add: out)
    next
      fix x n assume "?t' x = Some n" and p: "parent n \<noteq> kInvalidEntity"
      then have x: "?t x = Some n" "x \<notin> ?S" using old by blast+
      from links_closed_parent[OF cl x(1) p] obtain nq where nq: "?t (parent n) = Some nq"
        by auto
      from links_consistentD[OF co x(1) nq] have "x \<in> set (children nq)" by simp
      with down[OF _ nq] x(2) have "parent n \<notin> ?S" by blast
      with nq show "?t' (parent n) \<noteq> None" by (simp add: out)
    qed
    moreover have "links_consistent s'"
    proof (rule links_consistentI)
      fix c p nc np
      assume "?t' c = Some nc" "?t' p = Some np"
      then have "?t c = Some nc" "?t p = Some np" using old by blast+
      with co show "(c \<in> set (children np)) = (parent nc = p)" by (rule links_consistentD)
    qed
    ultimately show ?thesis by simp
  qed
qed

lemma disciplined_links:
  "reachable_disciplined s \<Longrightarrow> links_closed s \<and> links_consistent s"
proof (induction rule: reachable_disciplined.induct)
  case disciplined_init
  show ?case
    by (simp add: links_closed_def links_consistent_def transform_system_init_def)
next
  case (disciplined_create s e fuel lp ls r s')
  from disciplined_create.IH have "links_closed s" "links_consistent s" by simp_all
  then show ?case
    using disciplined_create.hyps(2,3,4) by (rule links_create)
next
  case (disciplined_add_child s c fuel p r' s')
  from disciplined_add_child.IH have "links_closed s" "links_consistent s" by simp_all
  then show ?case
    using disciplined_add_child.hyps(2,3) by (rule links_add_child)
next
  case (disciplined_remove_parent s c fuel s')
  from disciplined_remove_parent.IH have "links_closed s" "links_consistent s" by simp_all
  then show ?case
    using disciplined_remove_parent.hyps(2,3) by (rule links_remove_parent)
next
  case (disciplined_destroy s e fuel r'' s')
  from disciplined_destroy.IH have "links_closed s" "links_consistent s" by simp_all
  then show ?case
    using disciplined_destroy.hyps(2,3) by (rule links_destroy)
qed

text \<open>
  C2, under a calling discipline.  In every state reached from the empty transform system by calls in
  which \<open>create\<close> is applied only to a valid entity without scene-graph record,
  \<open>add_child\<close> only to a child without parent, \<open>remove_parent\<close> only to a valid entity
  and \<open>destroy\<close> only to an entity without parent, the links are mutually consistent:
  for all entities \<open>c\<close> and \<open>p\<close> with scene-graph records, \<open>c\<close> is in the children list of
  \<open>p\<close> if and only if the parent reference of \<open>c\<close> is \<open>p\<close>.
\<close>

theorem disciplined_links_consistent:
  "reachable_disciplined s \<Longrightarrow> links_consistent s"
  by (simp add: disciplined_links)

theorem disciplined_links_consistent_witness:
  "reachable_disciplined scene_linked \<and> links_consistent scene_linked"
  using disciplined_links_consistent[OF disciplined_scene_linked] disciplined_scene_linked
  by simp

text \<open>
  C2 does not hold for arbitrary calls: attaching entity 3 to entity 1 and then to entity 2 leaves it in the
  children list of entity 1 while its parent reference is entity 2.
\<close>

theorem reparenting_breaks_links:
  "reachable scene_reparented \<and> \<not> links_consistent scene_reparented"
proof -
  have "scene_graph_transforms scene_reparented 3 =
      Some \<lparr>get_entity = 3, local_pose = 4, local_scale = 1, parent = 2, children = []\<rparr>"
    "scene_graph_transforms scene_reparented 1 =
      Some \<lparr>get_entity = 1, local_pose = 5, local_scale = 1, parent = 0, children = [3]\<rparr>"
    by (simp_all add: scene_reparented_def)
  then have "\<not> links_consistent scene_reparented"
    by (auto dest: links_consistentD)
  with reachable_scene_reparented show ?thesis by simp
qed

end
